theory Spec2Isabelle
  imports Complex_Main "HOL-Library.Sublist" "HOL-Library.AList" "HOL-Library.Multiset"
begin

section \<open>Numeric entries and series\<close>

text \<open>
  A pandas float64 entry is modelled as \<open>real option\<close>: \<open>Some x\<close> is the finite
  number \<open>x\<close>, \<open>None\<close> is NaN (pandas' missing value). Arithmetic is exact: rounding
  and overflow of IEEE doubles are not modelled, and input entries are finite or
  missing. Comparisons with NaN are false and arithmetic on NaN gives NaN, as in numpy.
\<close>

type_synonym fl = "real option"

type_synonym series = "fl list"

definition fadd :: "fl \<Rightarrow> fl \<Rightarrow> fl" where
  "fadd a b = (case a of None \<Rightarrow> None | Some x \<Rightarrow> (case b of None \<Rightarrow> None | Some y \<Rightarrow> Some (x + y)))"

definition fsub :: "fl \<Rightarrow> fl \<Rightarrow> fl" where
  "fsub a b = (case a of None \<Rightarrow> None | Some x \<Rightarrow> (case b of None \<Rightarrow> None | Some y \<Rightarrow> Some (x - y)))"

definition fmul :: "fl \<Rightarrow> fl \<Rightarrow> fl" where
  "fmul a b = (case a of None \<Rightarrow> None | Some x \<Rightarrow> (case b of None \<Rightarrow> None | Some y \<Rightarrow> Some (x * y)))"

text \<open>
  Float division never raises in numpy. \<open>0 / 0\<close> is NaN. A non-zero numerator over a
  zero denominator is an infinity in IEEE, which this entry type cannot hold; the
  divisions of the program never reach that case (\<open>compute_drawdown\<close> divides by the
  running peak, which is zero only where the numerator is zero, see
  \<open>drawdown_zero_peak\<close>; \<open>compute_zscore\<close> replaces zero divisors by NaN first;
  the row mean divides by a positive count), and the model returns NaN there.
\<close>

definition fdiv :: "fl \<Rightarrow> fl \<Rightarrow> fl" where
  "fdiv a b = (case a of None \<Rightarrow> None | Some x \<Rightarrow>
     (case b of None \<Rightarrow> None | Some y \<Rightarrow> if y = 0 then None else Some (x / y)))"

definition flt :: "fl \<Rightarrow> fl \<Rightarrow> bool" where
  "flt a b = (case a of None \<Rightarrow> False | Some x \<Rightarrow> (case b of None \<Rightarrow> False | Some y \<Rightarrow> x < y))"

definition fle :: "fl \<Rightarrow> fl \<Rightarrow> bool" where
  "fle a b = (case a of None \<Rightarrow> False | Some x \<Rightarrow> (case b of None \<Rightarrow> False | Some y \<Rightarrow> x \<le> y))"

definition fge :: "fl \<Rightarrow> fl \<Rightarrow> bool" where
  "fge a b = fle b a"

definition fabs :: "fl \<Rightarrow> fl" where
  "fabs a = map_option abs a"

text \<open>The non-missing entries of a series, in order (\<open>dropna\<close> on the values).\<close>

definition present :: "series \<Rightarrow> real list" where
  "present xs = concat (map (\<lambda>v. case v of None \<Rightarrow> [] | Some x \<Rightarrow> [x]) xs)"

datatype error = ValueError string | IndexError | KeyError string | ZeroDivisionError

section \<open>Drawdown engine\<close>

text \<open>
  \<open>cumprod\<close> with pandas' default \<open>skipna=True\<close>: a missing entry gives a missing
  output and leaves the running product unchanged.
\<close>

fun cumprod_from :: "real \<Rightarrow> series \<Rightarrow> series" where
  "cumprod_from acc [] = []"
| "cumprod_from acc (None # xs) = None # cumprod_from acc xs"
| "cumprod_from acc (Some x # xs) = Some (acc * x) # cumprod_from (acc * x) xs"

definition cumprod :: "series \<Rightarrow> series" where
  "cumprod xs = cumprod_from 1 xs"

definition compute_cumulative_returns :: "series \<Rightarrow> series" where
  "compute_cumulative_returns returns = cumprod (map (fadd (Some 1)) returns)"

text \<open>
  \<open>expanding().max()\<close> (minimum observations 1): the maximum of the non-missing
  entries seen so far, missing while there is none.
\<close>

definition nanmax :: "fl \<Rightarrow> fl \<Rightarrow> fl" where
  "nanmax m x = (case m of None \<Rightarrow> x | Some a \<Rightarrow> (case x of None \<Rightarrow> Some a | Some b \<Rightarrow> Some (max a b)))"

fun expanding_max_from :: "fl \<Rightarrow> series \<Rightarrow> series" where
  "expanding_max_from m [] = []"
| "expanding_max_from m (x # xs) = nanmax m x # expanding_max_from (nanmax m x) xs"

definition compute_running_max :: "series \<Rightarrow> series" where
  "compute_running_max cumulative_returns = expanding_max_from None cumulative_returns"

definition compute_drawdown :: "series \<Rightarrow> series" where
  "compute_drawdown returns =
     (let cum_returns = compute_cumulative_returns returns;
          running_max = compute_running_max cum_returns
      in map (\<lambda>(c, m). fdiv (fsub c m) m) (zip cum_returns running_max))"

section \<open>Episode segmentation\<close>

text \<open>
  A return series carries its index: it is a list of (timestamp, entry) pairs.
  An episode record has the seven fields the source puts in its dictionary.
\<close>

type_synonym 'i indexed = "('i \<times> fl) list"

record 'i episode =
  start_date :: 'i
  trough_date :: 'i
  end_date :: 'i
  depth_pct :: fl
  duration_days :: nat
  start_value :: fl
  trough_value :: fl

text \<open>
  \<open>Series.argmin()\<close>: the position of the first smallest non-missing entry. On an
  empty or all-missing series pandas raises (older versions return -1 with a warning);
  the model returns \<open>None\<close> there and the caller turns it into an error.
\<close>

definition argmin :: "series \<Rightarrow> nat option" where
  "argmin xs =
     (if present xs = [] then None
      else Some (length (takeWhile (\<lambda>v. v \<noteq> Some (min_list (present xs))) xs)))"

text \<open>
  The record built when an episode is closed over the slice
  \<open>drawdown.iloc[start_idx : stop]\<close>, with \<open>end_idx\<close> the position whose timestamp is
  reported as the end; \<open>None\<close> when the depth test fails.
\<close>

definition close_episode ::
  "real \<Rightarrow> 'i list \<Rightarrow> series \<Rightarrow> series \<Rightarrow> nat \<Rightarrow> nat \<Rightarrow> nat \<Rightarrow> nat \<Rightarrow> error + 'i episode list" where
  "close_episode drawdown_threshold idx drawdown cum_returns start_idx stop end_idx duration =
     (let episode_dd = drop start_idx (take stop drawdown)
      in case argmin episode_dd of
           None \<Rightarrow> Inl (ValueError ''attempt to get argmin of an empty sequence'')
         | Some k \<Rightarrow>
             (let trough_idx = start_idx + k;
                  depth = drawdown ! trough_idx
              in if fge (fabs depth) (Some (drawdown_threshold / 100))
                 then Inr [\<lparr> start_date = idx ! start_idx,
                             trough_date = idx ! trough_idx,
                             end_date = idx ! end_idx,
                             depth_pct = fmul depth (Some 100),
                             duration_days = duration,
                             start_value = cum_returns ! start_idx,
                             trough_value = cum_returns ! trough_idx \<rparr>]
                 else Inr []))"

text \<open>
  One iteration of the \<open>for i in range(len(in_drawdown))\<close> loop. The state is
  \<open>(start_idx, episodes)\<close>. Positions are naturals: \<open>start_idx\<close>, when set, is
  smaller than \<open>i\<close> (lemma \<open>walk_invariant\<close>), so \<open>i - 1\<close> and
  \<open>end_idx - start_idx\<close> do not truncate.
\<close>

definition walk_step ::
  "real \<Rightarrow> 'i list \<Rightarrow> series \<Rightarrow> series \<Rightarrow> nat option \<times> 'i episode list \<Rightarrow> nat
     \<Rightarrow> error + (nat option \<times> 'i episode list)" where
  "walk_step drawdown_threshold idx drawdown cum_returns st i =
     (case st of (start_idx, episodes) \<Rightarrow>
        (let in_drawdown = flt (drawdown ! i) (Some 0)
         in if in_drawdown \<and> start_idx = None then Inr (Some i, episodes)
            else if \<not> in_drawdown \<and> start_idx \<noteq> None then
              (case start_idx of
                 None \<Rightarrow> Inr (None, episodes)
               | Some s \<Rightarrow>
                   (let end_idx = i - 1
                    in case close_episode drawdown_threshold idx drawdown cum_returns
                              s (end_idx + 1) end_idx (end_idx - s + 1) of
                         Inl e \<Rightarrow> Inl e
                       | Inr new \<Rightarrow> Inr (None, episodes @ new)))
            else Inr (start_idx, episodes)))"

text \<open>The loop after its first \<open>n\<close> iterations (\<open>i = 0, \<dots>, n - 1\<close>).\<close>

primrec walk_upto ::
  "real \<Rightarrow> 'i list \<Rightarrow> series \<Rightarrow> series \<Rightarrow> nat \<Rightarrow> error + (nat option \<times> 'i episode list)" where
  "walk_upto drawdown_threshold idx drawdown cum_returns 0 = Inr (None, [])"
| "walk_upto drawdown_threshold idx drawdown cum_returns (Suc n) =
     (case walk_upto drawdown_threshold idx drawdown cum_returns n of
        Inl e \<Rightarrow> Inl e
      | Inr st \<Rightarrow> walk_step drawdown_threshold idx drawdown cum_returns st n)"

text \<open>
  \<open>compute_drawdown_episodes\<close>: the walk over the whole series, then the block that
  handles a drawdown still open at the end (slice \<open>drawdown.iloc[start_idx:]\<close>, end
  timestamp \<open>drawdown.index[-1]\<close>, duration \<open>len(drawdown) - start_idx\<close>). The
  \<open>logger.info\<close> calls do not influence the result and are left out.
\<close>

definition compute_drawdown_episodes :: "real \<Rightarrow> 'i indexed \<Rightarrow> error + 'i episode list" where
  "compute_drawdown_episodes drawdown_threshold returns =
     (let idx = map fst returns;
          drawdown = compute_drawdown (map snd returns);
          cum_returns = compute_cumulative_returns (map snd returns);
          n = length drawdown
      in case walk_upto drawdown_threshold idx drawdown cum_returns n of
           Inl e \<Rightarrow> Inl e
         | Inr (start_idx, episodes) \<Rightarrow>
             (case start_idx of
                None \<Rightarrow> Inr episodes
              | Some s \<Rightarrow>
                  (case close_episode drawdown_threshold idx drawdown cum_returns
                          s n (n - 1) (n - s) of
                     Inl e \<Rightarrow> Inl e
                   | Inr new \<Rightarrow> Inr (episodes @ new))))"

section \<open>Rolling windows and quantiles\<close>

text \<open>
  \<open>Series.rolling(window, min_periods)\<close>. pandas checks the arguments when the
  rolling object is built: a negative window, a negative \<open>min_periods\<close> and
  \<open>min_periods > window\<close> raise ValueError. The window at position \<open>t\<close> holds the
  last \<open>window\<close> entries up to and including \<open>t\<close> (fewer at the start); the
  aggregate is missing unless the window has at least \<open>min_periods\<close> non-missing
  entries.
\<close>

definition rolling_windows :: "nat \<Rightarrow> series \<Rightarrow> series list" where
  "rolling_windows w xs = map (\<lambda>t. drop (Suc t - w) (take (Suc t) xs)) [0..<length xs]"

definition rolling_apply :: "int \<Rightarrow> int \<Rightarrow> (series \<Rightarrow> fl) \<Rightarrow> series \<Rightarrow> error + series" where
  "rolling_apply window min_periods f xs =
     (if window < 0 then Inl (ValueError ''window must be an integer 0 or greater'')
      else if min_periods < 0 then Inl (ValueError ''min_periods must be >= 0'')
      else if window < min_periods then Inl (ValueError ''min_periods must be <= window'')
      else Inr (map (\<lambda>win. if min_periods \<le> int (length (present win)) then f win else None)
                    (rolling_windows (nat window) xs)))"

text \<open>The aggregates used by the program: the lambda \<open>x.prod() - 1\<close>, sum, mean and
  sample standard deviation (\<open>ddof = 1\<close>, missing below two observations).\<close>

definition prod_minus_one :: "series \<Rightarrow> fl" where
  "prod_minus_one win = fsub (foldr fmul win (Some 1)) (Some 1)"

definition roll_sum :: "series \<Rightarrow> fl" where
  "roll_sum win = Some (sum_list (present win))"

definition nanmean :: "series \<Rightarrow> fl" where
  "nanmean win =
     (let vs = present win
      in if vs = [] then None else Some (sum_list vs / real (length vs)))"

definition roll_std :: "series \<Rightarrow> fl" where
  "roll_std win =
     (let vs = present win; n = length vs; mu = sum_list vs / real n
      in if n \<le> 1 then None
         else Some (sqrt (sum_list (map (\<lambda>x. (x - mu) ^ 2) vs) / real (n - 1))))"

text \<open>
  Quantiles with linear interpolation over the sorted non-missing entries
  (\<open>numpy.percentile\<close>, and the same formula in pandas' \<open>roll_quantile\<close>): the
  virtual position is \<open>q * (n - 1)\<close>; missing on an empty sample. Both entry points
  reject \<open>q\<close> outside \<open>[0, 1]\<close>.
\<close>

definition quantile_sorted :: "real list \<Rightarrow> real \<Rightarrow> fl" where
  "quantile_sorted srt q =
     (if srt = [] then None
      else (let h = q * real (length srt - 1);
                i = nat \<lfloor>h\<rfloor>;
                g = h - real i
            in if g = 0 then Some (srt ! i)
               else Some (srt ! i + (srt ! (i + 1) - srt ! i) * g)))"

definition quantile :: "real \<Rightarrow> series \<Rightarrow> error + fl" where
  "quantile q xs =
     (if q < 0 \<or> 1 < q then Inl (ValueError ''percentiles should all be in the interval [0, 1]'')
      else Inr (quantile_sorted (sort (present xs)) q))"

text \<open>
  \<open>expanding().quantile(q)\<close>: pandas walks the series once, inserting each
  non-missing entry into a sorted skip list and reading the quantile of the list after
  each position (minimum observations 1).
\<close>

fun expanding_quantile_from :: "real \<Rightarrow> real list \<Rightarrow> series \<Rightarrow> series" where
  "expanding_quantile_from q sl [] = []"
| "expanding_quantile_from q sl (x # xs) =
     (let sl' = (case x of None \<Rightarrow> sl | Some v \<Rightarrow> insort v sl)
      in quantile_sorted sl' q # expanding_quantile_from q sl' xs)"

definition expanding_quantile :: "real \<Rightarrow> series \<Rightarrow> error + series" where
  "expanding_quantile q xs =
     (if q < 0 \<or> 1 < q then Inl (ValueError ''quantile value not in [0, 1]'')
      else Inr (expanding_quantile_from q [] xs))"

section \<open>Crash event classifier\<close>

text \<open>
  \<open>identify_crash_events\<close>. The period returns are the returns themselves for
  \<open>window = 1\<close> and the rolling compounded return otherwise (\<open>rolling(window)\<close> has
  \<open>min_periods = window\<close>). The two \<open>logger.info\<close> calls do not influence the
  result and are left out.
\<close>

definition period_returns_of :: "series \<Rightarrow> int \<Rightarrow> error + series" where
  "period_returns_of returns window =
     (if window = 1 then Inr returns
      else rolling_apply window window prod_minus_one (map (fadd (Some 1)) returns))"

definition identify_crash_events :: "real \<Rightarrow> series \<Rightarrow> int \<Rightarrow> string \<Rightarrow> error + bool list" where
  "identify_crash_events crash_percentile returns window method =
     (case period_returns_of returns window of
        Inl e \<Rightarrow> Inl e
      | Inr period_returns \<Rightarrow>
          if method = ''historical'' then
            (case quantile (crash_percentile / 100) period_returns of
               Inl e \<Rightarrow> Inl e
             | Inr threshold \<Rightarrow> Inr (map (\<lambda>r. flt r threshold) period_returns))
          else if method = ''rolling'' then
            (case expanding_quantile (crash_percentile / 100) period_returns of
               Inl e \<Rightarrow> Inl e
             | Inr rolling_threshold \<Rightarrow>
                 Inr (map (\<lambda>(r, th). flt r th) (zip period_returns rolling_threshold)))
          else Inl (ValueError (''Unknown method: '' @ method)))"

section \<open>Z-score normaliser\<close>

definition replace_zero_nan :: "fl \<Rightarrow> fl" where
  "replace_zero_nan s = (if s = Some 0 then None else s)"

definition compute_zscore :: "series \<Rightarrow> int \<Rightarrow> int option \<Rightarrow> error + series" where
  "compute_zscore series window min_periods =
     (let mp = (case min_periods of None \<Rightarrow> window div 2 | Some m \<Rightarrow> m)
      in case rolling_apply window mp nanmean series of
           Inl e \<Rightarrow> Inl e
         | Inr rolling_mean \<Rightarrow>
             (case rolling_apply window mp roll_std series of
                Inl e \<Rightarrow> Inl e
              | Inr rolling_std \<Rightarrow>
                  Inr (map (\<lambda>(x, m, s). fdiv (fsub x m) (replace_zero_nan s))
                           (zip series (zip rolling_mean rolling_std)))))"

section \<open>Winsoriser\<close>

text \<open>
  \<open>scipy.stats.mstats.winsorize(a, limits=(lolim, uplim))\<close> on a one-dimensional
  array without missing entries, with the default inclusive limits. With
  \<open>idx\<close> the argsort of \<open>a\<close> and \<open>n\<close> its size:
  a limit outside \<open>[0, 1]\<close> raises ValueError;
  if \<open>lolim\<close> is non-zero, \<open>lowidx = int(lolim * n)\<close> and
  \<open>a[idx[:lowidx]] = a[idx[lowidx]]\<close>;
  then \<open>upidx = n - int(n * uplim)\<close> and \<open>a[idx[upidx:]] = a[idx[upidx - 1]]\<close>.
  Reading \<open>idx\<close> out of range raises IndexError (\<open>idx[-1]\<close> is the last entry of a
  non-empty \<open>idx\<close>).
\<close>

definition argsort :: "real list \<Rightarrow> nat list" where
  "argsort a = sort_key (\<lambda>i. a ! i) [0..<length a]"

definition assign_at :: "real list \<Rightarrow> nat list \<Rightarrow> real \<Rightarrow> real list" where
  "assign_at a ps v = map (\<lambda>i. if i \<in> set ps then v else a ! i) [0..<length a]"

definition mstats_winsorize :: "real \<Rightarrow> real \<Rightarrow> real list \<Rightarrow> error + real list" where
  "mstats_winsorize lolim uplim a =
     (if 1 < lolim \<or> lolim < 0 then
        Inl (ValueError ''The proportion to cut from the beginning should be between 0. and 1.'')
      else if 1 < uplim \<or> uplim < 0 then
        Inl (ValueError ''The proportion to cut from the end should be between 0. and 1.'')
      else
        (let n = length a;
             idx = argsort a;
             lowidx = nat \<lfloor>lolim * real n\<rfloor>;
             upidx = n - nat \<lfloor>real n * uplim\<rfloor>
         in if lolim \<noteq> 0 \<and> n \<le> lowidx then Inl IndexError
            else if n = 0 then Inl IndexError
            else
              (let a1 = (if lolim \<noteq> 0 then assign_at a (take lowidx idx) (a ! (idx ! lowidx))
                         else a);
                   src = (if upidx = 0 then idx ! (n - 1) else idx ! (upidx - 1))
               in Inr (assign_at a1 (drop upidx idx) (a1 ! src)))))"

text \<open>
  Label alignment of two indexes (outer join): the index itself when both are equal,
  the sorted union of the labels otherwise. This is pandas' result for indexes without
  duplicate labels.
\<close>

definition index_union :: "'i::linorder list \<Rightarrow> 'i list \<Rightarrow> 'i list" where
  "index_union a b = (if a = b then a else sort (remdups (a @ b)))"

text \<open>
  \<open>self.combine_first(other)\<close>: over the union of the two indexes, the entry of
  \<open>self\<close> where it is present, the entry of \<open>other\<close> otherwise.
\<close>

definition combine_first :: "('i::linorder) indexed \<Rightarrow> 'i indexed \<Rightarrow> 'i indexed" where
  "combine_first self other =
     map (\<lambda>l. (l, case map_of self l of
                     Some (Some x) \<Rightarrow> Some x
                   | _ \<Rightarrow> (case map_of other l of Some v \<Rightarrow> v | None \<Rightarrow> None)))
         (index_union (map fst self) (map fst other))"

definition dropna :: "'i indexed \<Rightarrow> 'i indexed" where
  "dropna series = filter (\<lambda>(l, v). v \<noteq> None) series"

definition winsorize_series :: "real \<Rightarrow> real \<Rightarrow> ('i::linorder) indexed \<Rightarrow> error + 'i indexed" where
  "winsorize_series winsorize_lower winsorize_upper series =
     (let lolim = winsorize_lower / 100;
          uplim = (100 - winsorize_upper) / 100
      in case mstats_winsorize lolim uplim (present (map snd (dropna series))) of
           Inl e \<Rightarrow> Inl e
         | Inr w \<Rightarrow>
             (let winsorized = zip (map fst (dropna series)) (map Some w)
              in Inr (combine_first series winsorized)))"

section \<open>Tables, strings and the log\<close>

text \<open>
  A DataFrame: its index (timestamps) and its columns in order, each a name with a
  series as long as the index. Column names are unique in the input tables.
\<close>

record 'i dataframe =
  df_index :: "'i list"
  df_columns :: "(string \<times> series) list"

definition and_then :: "error + 'a \<Rightarrow> ('a \<Rightarrow> error + 'b) \<Rightarrow> error + 'b" where
  "and_then r f = (case r of Inl e \<Rightarrow> Inl e | Inr x \<Rightarrow> f x)"

text \<open>\<open>df[name]\<close>: the column, KeyError when there is none.\<close>

definition column :: "'i dataframe \<Rightarrow> string \<Rightarrow> error + series" where
  "column df name = (case map_of (df_columns df) name of None \<Rightarrow> Inl (KeyError name) | Some c \<Rightarrow> Inr c)"

text \<open>
  A series with index \<open>idx\<close> re-read at the labels \<open>new_index\<close>: missing where
  the label is absent.
\<close>

definition reindex :: "'i list \<Rightarrow> series \<Rightarrow> 'i list \<Rightarrow> series" where
  "reindex idx col new_index =
     map (\<lambda>l. case map_of (zip idx col) l of Some v \<Rightarrow> v | None \<Rightarrow> None) new_index"

text \<open>
  \<open>df[name] = series\<close>: the series is aligned to the index of the table (pandas
  refuses to realign a series whose index has duplicate labels); an existing column of
  that name is overwritten in place, a new one is appended.
\<close>

definition set_column :: "'i dataframe \<Rightarrow> string \<Rightarrow> 'i list \<Rightarrow> series \<Rightarrow> error + 'i dataframe" where
  "set_column df name idx col =
     (if idx = df_index df then Inr (df\<lparr>df_columns := AList.update name col (df_columns df)\<rparr>)
      else if \<not> distinct idx then
        Inl (ValueError ''cannot reindex on an axis with duplicate labels'')
      else Inr (df\<lparr>df_columns := AList.update name (reindex idx col (df_index df)) (df_columns df)\<rparr>))"

text \<open>\<open>df.mean(axis=1)\<close> with the default \<open>skipna=True\<close>, as a list of row means.\<close>

definition row_means :: "nat \<Rightarrow> series list \<Rightarrow> series" where
  "row_means n cols = map (\<lambda>k. nanmean (map (\<lambda>c. c ! k) cols)) [0..<n]"


text \<open>
  Python's \<open>s.replace(old, new)\<close>: every non-overlapping occurrence of \<open>old\<close>, from
  the left. With an empty \<open>old\<close>, \<open>new\<close> is put before every character and at the end.
\<close>

fun replace_from :: "string \<Rightarrow> string \<Rightarrow> string \<Rightarrow> string" where
  "replace_from old new [] = []"
| "replace_from old new (c # cs) =
     (if prefix old (c # cs) then new @ replace_from old new (drop (length old - 1) cs)
      else c # replace_from old new cs)"

definition str_replace :: "string \<Rightarrow> string \<Rightarrow> string \<Rightarrow> string" where
  "str_replace old new s =
     (if old = [] then new @ concat (map (\<lambda>c. c # new) s) else replace_from old new s)"

definition endswith :: "string \<Rightarrow> string \<Rightarrow> bool" where
  "endswith s suf = suffix suf s"

text \<open>Decimal rendering of a count in an f-string.\<close>

fun string_of_nat :: "nat \<Rightarrow> string" where
  "string_of_nat n =
     (if n < 10 then [''0123456789'' ! n]
      else string_of_nat (n div 10) @ [''0123456789'' ! (n mod 10)])"

text \<open>
  The module logger is an event sink: every builder returns the list of the records
  it has passed to the logger, in order, next to its result.
\<close>

datatype level = INFO | WARNING

type_synonym log_entry = "level \<times> string"

section \<open>Crowding proxies\<close>

text \<open>
  The body of the loop over \<open>returns.columns\<close> in \<open>build_flow_attention_proxy\<close>,
  in its three blocks: volume z-score (only when the volume column exists; there is
  no \<open>else\<close> branch and no logger call), return run-up z-score, crash frequency.
\<close>

definition volume_component ::
  "int \<Rightarrow> 'i dataframe \<Rightarrow> 'i dataframe \<Rightarrow> string \<Rightarrow> error + 'i dataframe" where
  "volume_component short_window volumes components ticker_name =
     (let vol_col = ticker_name @ ''_vol''
      in if vol_col \<in> set (map fst (df_columns volumes)) then
           and_then (column volumes vol_col) (\<lambda>v.
           and_then (compute_zscore v short_window None) (\<lambda>vol_zscore.
             set_column components (ticker_name @ ''_vol_zscore'') (df_index volumes) vol_zscore))
         else Inr components)"

definition runup_component ::
  "int \<Rightarrow> 'i dataframe \<Rightarrow> 'i dataframe \<Rightarrow> string \<Rightarrow> string \<Rightarrow> error + 'i dataframe" where
  "runup_component medium_window returns components ticker ticker_name =
     and_then (column returns ticker) (\<lambda>r.
     and_then (rolling_apply medium_window medium_window prod_minus_one
                 (map (fadd (Some 1)) r)) (\<lambda>cum_return.
     and_then (compute_zscore cum_return medium_window None) (\<lambda>ret_zscore.
       set_column components (ticker_name @ ''_ret_zscore'') (df_index returns) ret_zscore)))"

definition crash_frequency_component ::
  "int \<Rightarrow> 'i dataframe \<Rightarrow> 'i dataframe \<Rightarrow> string \<Rightarrow> string \<Rightarrow> error + 'i dataframe" where
  "crash_frequency_component short_window returns components ticker ticker_name =
     and_then (column returns ticker) (\<lambda>r.
     and_then (quantile (5 / 100) r) (\<lambda>crash_threshold.
       (let crash_days = map (\<lambda>x. if flt x crash_threshold then Some 1 else Some 0) r
        in and_then (rolling_apply short_window short_window roll_sum crash_days) (\<lambda>crash_freq.
           and_then (compute_zscore crash_freq short_window None) (\<lambda>crash_freq_zscore.
             set_column components (ticker_name @ ''_crash_freq'') (df_index returns)
               crash_freq_zscore)))))"

definition flow_attention_ticker ::
  "int \<Rightarrow> int \<Rightarrow> 'i dataframe \<Rightarrow> 'i dataframe \<Rightarrow> 'i dataframe \<Rightarrow> string \<Rightarrow> error + 'i dataframe" where
  "flow_attention_ticker short_window medium_window returns volumes components ticker =
     (if endswith ticker ''_ret'' then
        (let ticker_name = str_replace ''_ret'' [] ticker
         in and_then (volume_component short_window volumes components ticker_name) (\<lambda>c1.
            and_then (runup_component medium_window returns c1 ticker ticker_name) (\<lambda>c2.
              crash_frequency_component short_window returns c2 ticker ticker_name)))
      else Inr components)"

text \<open>The names of the columns that the loop body writes for one column of \<open>returns\<close>.\<close>

definition ticker_components :: "'i dataframe \<Rightarrow> string \<Rightarrow> string set" where
  "ticker_components volumes ticker =
     (if endswith ticker ''_ret'' then
        (let ticker_name = str_replace ''_ret'' [] ticker
         in {ticker_name @ ''_ret_zscore'', ticker_name @ ''_crash_freq''}
            \<union> (if ticker_name @ ''_vol'' \<in> set (map fst (df_columns volumes))
               then {ticker_name @ ''_vol_zscore''} else {}))
      else {})"

fun flow_attention_loop ::
  "int \<Rightarrow> int \<Rightarrow> 'i dataframe \<Rightarrow> 'i dataframe \<Rightarrow> 'i dataframe \<Rightarrow> string list \<Rightarrow> error + 'i dataframe" where
  "flow_attention_loop short_window medium_window returns volumes components [] = Inr components"
| "flow_attention_loop short_window medium_window returns volumes components (ticker # rest) =
     (case flow_attention_ticker short_window medium_window returns volumes components ticker of
        Inl e \<Rightarrow> Inl e
      | Inr components' \<Rightarrow>
          flow_attention_loop short_window medium_window returns volumes components' rest)"

definition build_flow_attention_proxy ::
  "int \<Rightarrow> int \<Rightarrow> 'i dataframe \<Rightarrow> 'i dataframe \<Rightarrow> log_entry list \<times> (error + 'i dataframe)" where
  "build_flow_attention_proxy short_window medium_window returns volumes =
     (let log0 = [(INFO, ''Building flow-attention crowding proxy...'')];
          components = \<lparr> df_index = df_index returns, df_columns = [] \<rparr>
      in case flow_attention_loop short_window medium_window returns volumes components
                (map fst (df_columns returns)) of
           Inl e \<Rightarrow> (log0, Inl e)
         | Inr components \<Rightarrow>
             (log0 @ [(INFO, ''Flow-attention proxy created with ''
                              @ string_of_nat (length (df_columns components)) @ '' components'')],
              Inr components))"

text \<open>
  \<open>build_comovement_proxy\<close>. The rolling correlation of two columns is pandas'
  \<open>rolling(window).corr\<close>; it is a parameter here (\<open>rolling_corr\<close>), since no
  property below depends on its values.
\<close>

definition comovement_pairs :: "string list \<Rightarrow> (string \<times> string) list" where
  "comovement_pairs etf_cols =
     concat (map (\<lambda>i. map (\<lambda>col2. (etf_cols ! i, col2)) (drop (i + 1) etf_cols))
                 [0..<length etf_cols])"

fun comovement_loop ::
  "(int \<Rightarrow> series \<Rightarrow> series \<Rightarrow> error + series) \<Rightarrow> int \<Rightarrow> 'i dataframe
     \<Rightarrow> 'i dataframe \<times> string list \<Rightarrow> (string \<times> string) list
     \<Rightarrow> error + 'i dataframe \<times> string list" where
  "comovement_loop rolling_corr medium_window etf_returns st [] = Inr st"
| "comovement_loop rolling_corr medium_window etf_returns st ((col1, col2) # rest) =
     (case st of (components, pairs) \<Rightarrow>
        (let ticker1 = str_replace ''_ret'' [] col1;
             ticker2 = str_replace ''_ret'' [] col2;
             pair_name = ''corr_'' @ ticker1 @ ''_'' @ ticker2
         in and_then (column etf_returns col1) (\<lambda>x.
            and_then (column etf_returns col2) (\<lambda>y.
            and_then (rolling_corr medium_window x y) (\<lambda>c.
            and_then (set_column components pair_name (df_index etf_returns) c) (\<lambda>components'.
              comovement_loop rolling_corr medium_window etf_returns
                (components', pairs @ [pair_name]) rest))))))"

definition build_comovement_proxy ::
  "(int \<Rightarrow> series \<Rightarrow> series \<Rightarrow> error + series) \<Rightarrow> int \<Rightarrow> 'i dataframe
     \<Rightarrow> log_entry list \<times> (error + 'i dataframe)" where
  "build_comovement_proxy rolling_corr medium_window returns =
     (let log0 = [(INFO, ''Building co-movement crowding proxy...'')];
          etf_cols = filter (\<lambda>col. endswith col ''_ret'') (map fst (df_columns returns));
          etf_returns = \<lparr> df_index = df_index returns,
                          df_columns = filter (\<lambda>(name, c). name \<in> set etf_cols) (df_columns returns) \<rparr>
      in if length etf_cols < 2 then
           (log0 @ [(WARNING, ''Need at least 2 ETFs for correlation proxy'')],
            Inr \<lparr> df_index = df_index returns, df_columns = [] \<rparr>)
         else
           (case comovement_loop rolling_corr medium_window etf_returns
                   (\<lparr> df_index = df_index returns, df_columns = [] \<rparr>, [])
                   (comovement_pairs etf_cols) of
              Inl e \<Rightarrow> (log0, Inl e)
            | Inr (components, pairs) \<Rightarrow>
                (case (if pairs \<noteq> [] then
                         and_then (fold (\<lambda>p acc. and_then acc (\<lambda>cs.
                                      and_then (column components p) (\<lambda>c. Inr (cs @ [c]))))
                                    pairs (Inr []))
                           (\<lambda>cs. set_column components ''avg_corr'' (df_index components)
                                    (row_means (length (df_index components)) cs))
                       else Inr components) of
                   Inl e \<Rightarrow> (log0, Inl e)
                 | Inr components' \<Rightarrow>
                     (log0 @ [(INFO, ''Co-movement proxy created with ''
                                      @ string_of_nat (length (df_columns components'))
                                      @ '' components'')],
                      Inr components'))))"

section \<open>Composite aggregator\<close>



section \<open>Properties\<close>

subsection \<open>Episode segmentation\<close>

lemma present_Nil_iff: "present xs = [] \<longleftrightarrow> (\<forall>v\<in>set xs. v = None)"
  by (induction xs) (auto simp: present_def split: option.splits)

lemma set_present: "set (present xs) = {x. Some x \<in> set xs}"
  by (induction xs) (auto simp: present_def split: option.splits)

lemma argmin_Some:
  assumes "present xs \<noteq> []"
  shows "\<exists>k d. argmin xs = Some k \<and> k < length xs \<and> xs ! k = Some d
           \<and> (\<forall>j<length xs. \<forall>v. xs ! j = Some v \<longrightarrow> d \<le> v)
           \<and> (\<forall>j<k. xs ! j \<noteq> Some d)"
proof -
  let ?m = "min_list (present xs)"
  let ?P = "\<lambda>v. v \<noteq> Some ?m"
  let ?k = "length (takeWhile ?P xs)"
  have mM: "?m = Min (set (present xs))" using assms by (rule min_list_Min)
  have "?m \<in> set (present xs)" unfolding mM using assms by (intro Min_in) auto
  then have mem: "Some ?m \<in> set xs" by (simp add: set_present)
  have "takeWhile ?P xs \<noteq> xs" using mem by (auto simp: takeWhile_eq_all_conv)
  moreover have "?k \<le> length xs" by (rule length_takeWhile_le)
  ultimately have klt: "?k < length xs"
    using takeWhile_eq_take[of ?P xs] by (cases "?k = length xs") auto
  have at: "xs ! ?k = Some ?m"
    using nth_length_takeWhile[OF klt] by simp
  have low: "\<forall>j<length xs. \<forall>v. xs ! j = Some v \<longrightarrow> ?m \<le> v"
  proof (intro allI impI)
    fix j v assume "j < length xs" "xs ! j = Some v"
    then have "Some v \<in> set xs" using nth_mem by fastforce
    then have "v \<in> set (present xs)" by (simp add: set_present)
    then show "?m \<le> v" unfolding mM by simp
  qed
  have first: "\<forall>j<?k. xs ! j \<noteq> Some ?m"
  proof (intro allI impI)
    fix j assume j: "j < ?k"
    then have "takeWhile ?P xs ! j \<in> set (takeWhile ?P xs)" by simp
    then have "takeWhile ?P xs ! j \<noteq> Some ?m" by (rule set_takeWhileD[THEN conjunct2])
    then show "xs ! j \<noteq> Some ?m" using takeWhile_nth[OF j] by simp
  qed
  show ?thesis using assms klt at low first by (auto simp: argmin_def)
qed

lemma close_episode_run:
  assumes a: "a < stop" and st: "stop \<le> length dd"
    and run: "\<forall>j. a \<le> j \<and> j < stop \<longrightarrow> flt (dd ! j) (Some 0)"
  shows "\<exists>k d. a \<le> k \<and> k < stop \<and> dd ! k = Some d \<and> d < 0
           \<and> (\<forall>j. a \<le> j \<and> j < stop \<longrightarrow> (\<exists>v. dd ! j = Some v \<and> d \<le> v))
           \<and> (\<forall>j. a \<le> j \<and> j < k \<longrightarrow> (\<exists>v. dd ! j = Some v \<and> d < v))
           \<and> close_episode thr idx dd cum a stop e dur =
               Inr (if thr / 100 \<le> \<bar>d\<bar>
                    then [\<lparr> start_date = idx ! a, trough_date = idx ! k, end_date = idx ! e,
                             depth_pct = Some (d * 100), duration_days = dur,
                             start_value = cum ! a, trough_value = cum ! k \<rparr>]
                    else [])"
proof -
  let ?sl = "drop a (take stop dd)"
  have len: "length ?sl = stop - a" using st by simp
  have nth: "\<And>j. j < stop - a \<Longrightarrow> ?sl ! j = dd ! (a + j)" using st by simp
  have some: "\<And>j. a \<le> j \<Longrightarrow> j < stop \<Longrightarrow> \<exists>v. dd ! j = Some v \<and> v < 0"
    using run by (auto simp: flt_def split: option.splits)
  from some[of a] a obtain v0 where "dd ! a = Some v0" by auto
  then have "?sl ! 0 = Some v0" using nth[of 0] a by simp
  then have "Some v0 \<in> set ?sl" using len a by (metis nth_mem zero_less_diff)
  then have "present ?sl \<noteq> []" by (auto simp: present_Nil_iff)
  from argmin_Some[OF this] obtain k d where
    am: "argmin ?sl = Some k" and kl: "k < length ?sl" and kd: "?sl ! k = Some d"
    and low: "\<forall>j<length ?sl. \<forall>v. ?sl ! j = Some v \<longrightarrow> d \<le> v"
    and first: "\<forall>j<k. ?sl ! j \<noteq> Some d" by blast
  have k1: "a \<le> a + k" "a + k < stop" using kl len by auto
  have d1: "dd ! (a + k) = Some d" using kd nth kl len by simp
  have dneg: "d < 0" using some[OF k1] d1 by simp
  have lowdd: "\<forall>j. a \<le> j \<and> j < stop \<longrightarrow> (\<exists>v. dd ! j = Some v \<and> d \<le> v)"
  proof (intro allI impI)
    fix j assume j: "a \<le> j \<and> j < stop"
    then obtain v where v: "dd ! j = Some v" using some by blast
    have ja: "j - a < stop - a" using j by arith
    then have "j - a < length ?sl" using len by simp
    moreover have "?sl ! (j - a) = Some v" using nth[OF ja] j v by simp
    ultimately have "d \<le> v" using low by blast
    then show "\<exists>v. dd ! j = Some v \<and> d \<le> v" using v by simp
  qed
  have firstdd: "\<forall>j. a \<le> j \<and> j < a + k \<longrightarrow> (\<exists>v. dd ! j = Some v \<and> d < v)"
  proof (intro allI impI)
    fix j assume j: "a \<le> j \<and> j < a + k"
    then have js: "j < stop" using k1 by simp
    from lowdd j js obtain v where v: "dd ! j = Some v" "d \<le> v" by blast
    have "j - a < k" using j by auto
    then have "?sl ! (j - a) \<noteq> Some d" using first by blast
    moreover have ja: "j - a < stop - a" using j js by arith
    have "?sl ! (j - a) = Some v" using nth[OF ja] j v by simp
    ultimately have "v \<noteq> d" by auto
    then show "\<exists>v. dd ! j = Some v \<and> d < v" using v by auto
  qed
  have ce: "close_episode thr idx dd cum a stop e dur =
               Inr (if thr / 100 \<le> \<bar>d\<bar>
                    then [\<lparr> start_date = idx ! a, trough_date = idx ! (a + k), end_date = idx ! e,
                             depth_pct = Some (d * 100), duration_days = dur,
                             start_value = cum ! a, trough_value = cum ! (a + k) \<rparr>]
                    else [])"
    using am d1 by (simp add: close_episode_def fge_def fle_def fabs_def fmul_def Let_def)
  show ?thesis using k1 d1 dneg lowdd firstdd ce by blast
qed

lemma walk_invariant:
  "n \<le> length dd \<Longrightarrow>
   \<exists>s eps. walk_upto thr idx dd cum n = Inr (s, eps) \<and>
     (case s of None \<Rightarrow> n = 0 \<or> \<not> flt (dd ! (n - 1)) (Some 0)
      | Some a \<Rightarrow> a < n \<and> (\<forall>j. a \<le> j \<and> j < n \<longrightarrow> flt (dd ! j) (Some 0)))"
proof (induction n)
  case 0
  then show ?case by simp
next
  case (Suc n)
  then obtain s eps where w: "walk_upto thr idx dd cum n = Inr (s, eps)"
    and inv: "case s of None \<Rightarrow> n = 0 \<or> \<not> flt (dd ! (n - 1)) (Some 0)
      | Some a \<Rightarrow> a < n \<and> (\<forall>j. a \<le> j \<and> j < n \<longrightarrow> flt (dd ! j) (Some 0))" by auto
  show ?case
  proof (cases s)
    case None
    then show ?thesis using w by (cases "flt (dd ! n) (Some 0)") (auto simp: walk_step_def less_Suc_eq)
  next
    case (Some a)
    show ?thesis
    proof (cases "flt (dd ! n) (Some 0)")
      case True
      then show ?thesis using w Some inv by (auto simp: walk_step_def less_Suc_eq)
    next
      case False
      have "a < n" "n \<le> length dd" "\<forall>j. a \<le> j \<and> j < n \<longrightarrow> flt (dd ! j) (Some 0)"
        using inv Some Suc.prems by auto
      from close_episode_run[OF this, of thr idx cum "n - 1" "n - 1 - a + 1"]
      obtain new where "close_episode thr idx dd cum a n (n - 1) (n - 1 - a + 1) = Inr new" by blast
      then show ?thesis using w Some False \<open>a < n\<close> by (auto simp: walk_step_def)
    qed
  qed
qed

lemma walk_run:
  assumes "walk_upto thr idx dd cum a = Inr (None, eps)"
    and "\<forall>j. a \<le> j \<and> j < n \<longrightarrow> flt (dd ! j) (Some 0)" and "a < n"
  shows "walk_upto thr idx dd cum n = Inr (Some a, eps)"
  using assms(2,3)
proof (induction n)
  case 0
  then show ?case by simp
next
  case (Suc n)
  show ?case
  proof (cases "a = n")
    case True
    then show ?thesis using assms(1) Suc.prems by (simp add: walk_step_def)
  next
    case False
    then have "walk_upto thr idx dd cum n = Inr (Some a, eps)" using Suc by auto
    then show ?thesis using Suc.prems by (simp add: walk_step_def)
  qed
qed

lemma walk_run_start:
  assumes "a \<le> length dd" and "a = 0 \<or> \<not> flt (dd ! (a - 1)) (Some 0)"
  shows "\<exists>eps. walk_upto thr idx dd cum a = Inr (None, eps)"
proof -
  from walk_invariant[OF assms(1), of thr idx cum] obtain s eps where
    w: "walk_upto thr idx dd cum a = Inr (s, eps)"
    and inv: "case s of None \<Rightarrow> a = 0 \<or> \<not> flt (dd ! (a - 1)) (Some 0)
      | Some b \<Rightarrow> b < a \<and> (\<forall>j. b \<le> j \<and> j < a \<longrightarrow> flt (dd ! j) (Some 0))" by blast
  show ?thesis
  proof (cases s)
    case None
    then show ?thesis using w by simp
  next
    case (Some b)
    then have "b < a" "flt (dd ! (a - 1)) (Some 0)" using inv by auto
    then show ?thesis using assms(2) by simp
  qed
qed

lemma length_cumprod_from: "length (cumprod_from acc xs) = length xs"
  by (induction acc xs rule: cumprod_from.induct) auto

lemma length_compute_cumulative_returns: "length (compute_cumulative_returns xs) = length xs"
  by (simp add: compute_cumulative_returns_def cumprod_def length_cumprod_from)

lemma length_expanding_max_from: "length (expanding_max_from m xs) = length xs"
  by (induction xs arbitrary: m) auto

lemma length_compute_running_max: "length (compute_running_max xs) = length xs"
  by (simp add: compute_running_max_def length_expanding_max_from)

lemma length_compute_drawdown: "length (compute_drawdown xs) = length xs"
  by (simp add: compute_drawdown_def Let_def length_compute_cumulative_returns
      length_compute_running_max)

lemma walk_extends:
  assumes "walk_upto thr idx dd cum m = Inr (s, eps)" and "m \<le> n" and "n \<le> length dd"
  shows "\<exists>s' rest. walk_upto thr idx dd cum n = Inr (s', eps @ rest)"
  using assms(2,3)
proof (induction n)
  case 0
  then show ?case using assms(1) by simp
next
  case (Suc n)
  show ?case
  proof (cases "m = Suc n")
    case True
    then show ?thesis using assms(1) by simp
  next
    case False
    then have mn: "m \<le> n" "n \<le> length dd" using Suc.prems by auto
    from Suc.IH[OF mn] obtain s' rest where w: "walk_upto thr idx dd cum n = Inr (s', eps @ rest)"
      by blast
    from walk_invariant[OF Suc.prems(2), of thr idx cum] obtain s2 eps2 where
      w2: "walk_upto thr idx dd cum (Suc n) = Inr (s2, eps2)" by blast
    then have "walk_step thr idx dd cum (s', eps @ rest) n = Inr (s2, eps2)" using w by simp
    then have "\<exists>r. eps2 = eps @ rest @ r"
      by (auto simp: walk_step_def Let_def split: if_splits option.splits sum.splits)
    then show ?thesis using w2 by auto
  qed
qed

lemma episodes_extend:
  assumes "walk_upto thr (map fst returns) (compute_drawdown (map snd returns))
             (compute_cumulative_returns (map snd returns)) m = Inr (s, eps)"
    and "m \<le> length returns"
  shows "\<exists>rest. compute_drawdown_episodes thr returns = Inr (eps @ rest)"
proof -
  let ?idx = "map fst returns" and ?dd = "compute_drawdown (map snd returns)"
  let ?cum = "compute_cumulative_returns (map snd returns)"
  let ?n = "length ?dd"
  have n: "?n = length returns" by (simp add: length_compute_drawdown)
  from walk_extends[OF assms(1), of ?n] assms(2) n obtain s' rest where
    w: "walk_upto thr ?idx ?dd ?cum ?n = Inr (s', eps @ rest)" by auto
  show ?thesis
  proof (cases s')
    case None
    then show ?thesis using w by (simp add: compute_drawdown_episodes_def Let_def)
  next
    case (Some a)
    from walk_invariant[of ?n ?dd thr ?idx ?cum] w Some
    have "a < ?n" "\<forall>j. a \<le> j \<and> j < ?n \<longrightarrow> flt (?dd ! j) (Some 0)" by auto
    from close_episode_run[OF this(1) _ this(2), of thr ?idx ?cum "?n - 1" "?n - a"]
    obtain new where "close_episode thr ?idx ?dd ?cum a ?n (?n - 1) (?n - a) = Inr new" by auto
    then show ?thesis using w Some by (simp add: compute_drawdown_episodes_def Let_def)
  qed
qed

text \<open>
  Claim C3. Let positions \<open>start, \<dots>, t - 1\<close> be a run of negative drawdowns that
  begins at \<open>start\<close> (the position before is not negative, or there is none) and let
  the drawdown at \<open>t\<close> not be negative (in particular when it is at least 0). Then
  iteration \<open>t\<close> of the walk closes the episode: the trough is the first position of
  the minimum drawdown over \<open>start, \<dots>, t - 1\<close>, the depth is the drawdown there, the
  end is \<open>t - 1\<close>, the duration is \<open>(t - 1) - start + 1\<close>, and the record (depth
  stored in percent) is appended exactly when \<open>|depth| \<ge> threshold / 100\<close>; the
  episodes emitted so far stay a prefix of the final result.
\<close>

theorem episode_closed_on_recovery:
  fixes returns :: "'i indexed"
  defines "idx \<equiv> map fst returns"
    and "drawdown \<equiv> compute_drawdown (map snd returns)"
    and "cum_returns \<equiv> compute_cumulative_returns (map snd returns)"
  assumes t: "t < length returns" and st: "start < t"
    and run: "\<forall>j. start \<le> j \<and> j < t \<longrightarrow> flt (drawdown ! j) (Some 0)"
    and first: "start = 0 \<or> \<not> flt (drawdown ! (start - 1)) (Some 0)"
    and recov: "\<not> flt (drawdown ! t) (Some 0)"
  shows "\<exists>before trough depth emitted rest.
           walk_upto thr idx drawdown cum_returns start = Inr (None, before)
         \<and> start \<le> trough \<and> trough \<le> t - 1
         \<and> drawdown ! trough = Some depth
         \<and> (\<forall>j. start \<le> j \<and> j \<le> t - 1 \<longrightarrow> (\<exists>v. drawdown ! j = Some v \<and> depth \<le> v))
         \<and> (\<forall>j. start \<le> j \<and> j < trough \<longrightarrow> (\<exists>v. drawdown ! j = Some v \<and> depth < v))
         \<and> emitted = (if thr / 100 \<le> \<bar>depth\<bar>
                       then [\<lparr> start_date = idx ! start, trough_date = idx ! trough,
                                end_date = idx ! (t - 1), depth_pct = Some (depth * 100),
                                duration_days = (t - 1) - start + 1,
                                start_value = cum_returns ! start,
                                trough_value = cum_returns ! trough \<rparr>]
                       else [])
         \<and> walk_upto thr idx drawdown cum_returns (Suc t) = Inr (None, before @ emitted)
         \<and> compute_drawdown_episodes thr returns = Inr (before @ emitted @ rest)"
proof -
  have len: "length drawdown = length returns"
    by (simp add: drawdown_def length_compute_drawdown)
  have "start \<le> length drawdown" using t st len by simp
  from walk_run_start[OF this first, of thr idx cum_returns] obtain before where
    w0: "walk_upto thr idx drawdown cum_returns start = Inr (None, before)" by blast
  have wt: "walk_upto thr idx drawdown cum_returns t = Inr (Some start, before)"
    by (rule walk_run[OF w0 run st])
  have tl: "t \<le> length drawdown" using t len by simp
  from close_episode_run[OF st tl run, of thr idx cum_returns "t - 1" "(t - 1) - start + 1"]
  obtain k d where k: "start \<le> k" "k < t" and dk: "drawdown ! k = Some d"
    and low: "\<forall>j. start \<le> j \<and> j < t \<longrightarrow> (\<exists>v. drawdown ! j = Some v \<and> d \<le> v)"
    and fst: "\<forall>j. start \<le> j \<and> j < k \<longrightarrow> (\<exists>v. drawdown ! j = Some v \<and> d < v)"
    and ce: "close_episode thr idx drawdown cum_returns start t (t - 1) ((t - 1) - start + 1) =
               Inr (if thr / 100 \<le> \<bar>d\<bar>
                    then [\<lparr> start_date = idx ! start, trough_date = idx ! k,
                             end_date = idx ! (t - 1), depth_pct = Some (d * 100),
                             duration_days = (t - 1) - start + 1,
                             start_value = cum_returns ! start, trough_value = cum_returns ! k \<rparr>]
                    else [])"
    by blast
  define emitted where "emitted = (if thr / 100 \<le> \<bar>d\<bar>
                    then [\<lparr> start_date = idx ! start, trough_date = idx ! k,
                             end_date = idx ! (t - 1), depth_pct = Some (d * 100),
                             duration_days = (t - 1) - start + 1,
                             start_value = cum_returns ! start, trough_value = cum_returns ! k \<rparr>]
                    else [])"
  have t1: "t - 1 + 1 = t" using st by simp
  have step: "walk_upto thr idx drawdown cum_returns (Suc t) = Inr (None, before @ emitted)"
    using wt recov ce t1 by (simp add: walk_step_def emitted_def)
  from episodes_extend[of thr returns "Suc t" None "before @ emitted"] step t
  obtain rest where "compute_drawdown_episodes thr returns = Inr (before @ emitted @ rest)"
    by (auto simp: idx_def drawdown_def cum_returns_def)
  moreover have "k \<le> t - 1" using k by simp
  moreover have "\<forall>j. start \<le> j \<and> j \<le> t - 1 \<longrightarrow> (\<exists>v. drawdown ! j = Some v \<and> d \<le> v)"
    using low st by auto
  ultimately show ?thesis using w0 k(1) dk fst step emitted_def by blast
qed

text \<open>
  Claim C5. Let the drawdown be negative from \<open>start\<close> to the last position, the
  run beginning at \<open>start\<close>. Then the walk ends inside the drawdown and the function
  closes the episode over \<open>start, \<dots>, n - 1\<close>: end is the last timestamp, trough the
  first position of the minimum, depth the drawdown there, duration the number of
  positions in the run, and the record is emitted exactly when
  \<open>|depth| \<ge> threshold / 100\<close>, as for an episode closed inside the loop.
\<close>

theorem episode_open_at_end:
  fixes returns :: "'i indexed"
  defines "idx \<equiv> map fst returns"
    and "drawdown \<equiv> compute_drawdown (map snd returns)"
    and "cum_returns \<equiv> compute_cumulative_returns (map snd returns)"
  assumes st: "start < length returns"
    and run: "\<forall>j. start \<le> j \<and> j < length returns \<longrightarrow> flt (drawdown ! j) (Some 0)"
    and first: "start = 0 \<or> \<not> flt (drawdown ! (start - 1)) (Some 0)"
  shows "\<exists>before trough depth.
           walk_upto thr idx drawdown cum_returns start = Inr (None, before)
         \<and> walk_upto thr idx drawdown cum_returns (length returns) = Inr (Some start, before)
         \<and> start \<le> trough \<and> trough \<le> length returns - 1
         \<and> drawdown ! trough = Some depth
         \<and> (\<forall>j. start \<le> j \<and> j \<le> length returns - 1 \<longrightarrow>
                (\<exists>v. drawdown ! j = Some v \<and> depth \<le> v))
         \<and> (\<forall>j. start \<le> j \<and> j < trough \<longrightarrow> (\<exists>v. drawdown ! j = Some v \<and> depth < v))
         \<and> compute_drawdown_episodes thr returns =
             Inr (before @
                  (if thr / 100 \<le> \<bar>depth\<bar>
                   then [\<lparr> start_date = idx ! start, trough_date = idx ! trough,
                            end_date = last idx, depth_pct = Some (depth * 100),
                            duration_days = (length returns - 1) - start + 1,
                            start_value = cum_returns ! start,
                            trough_value = cum_returns ! trough \<rparr>]
                   else []))"
proof -
  let ?n = "length returns"
  have len: "length drawdown = ?n"
    by (simp add: drawdown_def length_compute_drawdown)
  have "start \<le> length drawdown" using st len by simp
  from walk_run_start[OF this first, of thr idx cum_returns] obtain before where
    w0: "walk_upto thr idx drawdown cum_returns start = Inr (None, before)" by blast
  have wn: "walk_upto thr idx drawdown cum_returns ?n = Inr (Some start, before)"
    by (rule walk_run[OF w0 run st])
  have nl: "?n \<le> length drawdown" using len by simp
  from close_episode_run[OF st nl run, of thr idx cum_returns "?n - 1" "?n - start"]
  obtain k d where k: "start \<le> k" "k < ?n" and dk: "drawdown ! k = Some d"
    and low: "\<forall>j. start \<le> j \<and> j < ?n \<longrightarrow> (\<exists>v. drawdown ! j = Some v \<and> d \<le> v)"
    and fst: "\<forall>j. start \<le> j \<and> j < k \<longrightarrow> (\<exists>v. drawdown ! j = Some v \<and> d < v)"
    and ce: "close_episode thr idx drawdown cum_returns start ?n (?n - 1) (?n - start) =
               Inr (if thr / 100 \<le> \<bar>d\<bar>
                    then [\<lparr> start_date = idx ! start, trough_date = idx ! k,
                             end_date = idx ! (?n - 1), depth_pct = Some (d * 100),
                             duration_days = ?n - start,
                             start_value = cum_returns ! start, trough_value = cum_returns ! k \<rparr>]
                    else [])"
    by blast
  have "idx \<noteq> []" using st by (auto simp: idx_def)
  then have lst: "idx ! (?n - 1) = last idx" by (simp add: last_conv_nth idx_def)
  have dur: "?n - start = (?n - 1) - start + 1" using st by simp
  have "compute_drawdown_episodes thr returns =
             Inr (before @
                  (if thr / 100 \<le> \<bar>d\<bar>
                   then [\<lparr> start_date = idx ! start, trough_date = idx ! k,
                            end_date = last idx, depth_pct = Some (d * 100),
                            duration_days = (?n - 1) - start + 1,
                            start_value = cum_returns ! start,
                            trough_value = cum_returns ! k \<rparr>]
                   else []))"
    using wn ce len lst dur
    by (simp add: compute_drawdown_episodes_def Let_def idx_def[symmetric]
        drawdown_def[symmetric] cum_returns_def[symmetric])
  moreover have "k \<le> ?n - 1" using k by simp
  moreover have "\<forall>j. start \<le> j \<and> j \<le> ?n - 1 \<longrightarrow> (\<exists>v. drawdown ! j = Some v \<and> d \<le> v)"
    using low st by auto
  ultimately show ?thesis using w0 wn k(1) dk fst by blast
qed

subsection \<open>Drawdown sign\<close>

lemma expanding_max_ge:
  "t < length xs \<Longrightarrow> xs ! t = Some w \<Longrightarrow>
   \<exists>m. expanding_max_from m0 xs ! t = Some m \<and> w \<le> m"
proof (induction xs arbitrary: m0 t)
  case Nil
  then show ?case by simp
next
  case (Cons x xs)
  show ?case
  proof (cases t)
    case 0
    then show ?thesis using Cons.prems by (auto simp: nanmax_def split: option.splits)
  next
    case (Suc k)
    then show ?thesis using Cons.prems Cons.IH by simp
  qed
qed

lemma expanding_max_attained:
  "t < length xs \<Longrightarrow> expanding_max_from m0 xs ! t = Some m \<Longrightarrow>
   m0 = Some m \<or> (\<exists>s\<le>t. xs ! s = Some m)"
proof (induction xs arbitrary: m0 t)
  case Nil
  then show ?case by simp
next
  case (Cons x xs)
  show ?case
  proof (cases t)
    case 0
    then show ?thesis using Cons.prems
      by (auto simp: nanmax_def max_def split: option.splits if_splits)
  next
    case (Suc k)
    with Cons.prems have "nanmax m0 x = Some m \<or> (\<exists>s\<le>k. xs ! s = Some m)"
      using Cons.IH[of k "nanmax m0 x"] by simp
    then show ?thesis
    proof
      assume "nanmax m0 x = Some m"
      then have "m0 = Some m \<or> x = Some m"
        by (auto simp: nanmax_def max_def split: option.splits if_splits)
      then show ?thesis by auto
    next
      assume "\<exists>s\<le>k. xs ! s = Some m"
      then obtain s where "s \<le> k" "xs ! s = Some m" by blast
      then have "Suc s \<le> t \<and> (x # xs) ! Suc s = Some m" using Suc by simp
      then show ?thesis by blast
    qed
  qed
qed

lemma cumprod_from_zero:
  "t < length xs \<Longrightarrow> cumprod_from 0 xs ! t = Some w \<Longrightarrow> w = 0"
proof (induction xs arbitrary: t)
  case Nil
  then show ?case by simp
next
  case (Cons x xs)
  then show ?case by (cases x; cases t) auto
qed

lemma cumprod_from_absorbs:
  "s \<le> t \<Longrightarrow> t < length xs \<Longrightarrow> cumprod_from acc xs ! s = Some 0 \<Longrightarrow>
   cumprod_from acc xs ! t = Some w \<Longrightarrow> w = 0"
proof (induction xs arbitrary: acc s t)
  case Nil
  then show ?case by simp
next
  case (Cons x xs)
  show ?case
  proof (cases s)
    case 0
    show ?thesis
    proof (cases t)
      case 0
      then show ?thesis using Cons.prems \<open>s = 0\<close> by simp
    next
      case (Suc k)
      then show ?thesis using Cons.prems \<open>s = 0\<close> cumprod_from_zero[of k xs w]
        by (cases x) auto
    qed
  next
    case (Suc s')
    then obtain k where k: "t = Suc k" using Cons.prems(1) by (cases t) auto
    then show ?thesis using Cons.prems Suc Cons.IH[of s' k] by (cases x) auto
  qed
qed

lemma drawdown_nth:
  "t < length returns \<Longrightarrow>
   compute_drawdown returns ! t =
     fdiv (fsub (compute_cumulative_returns returns ! t)
                (compute_running_max (compute_cumulative_returns returns) ! t))
          (compute_running_max (compute_cumulative_returns returns) ! t)"
  by (simp add: compute_drawdown_def Let_def length_compute_cumulative_returns
      length_compute_running_max)

lemma drawdown_zero_peak:
  assumes "t < length returns"
    and "compute_running_max (compute_cumulative_returns returns) ! t = Some 0"
    and "compute_cumulative_returns returns ! t = Some w"
  shows "w = 0"
proof -
  let ?cum = "compute_cumulative_returns returns"
  have tl: "t < length ?cum" using assms(1) by (simp add: length_compute_cumulative_returns)
  from expanding_max_attained[OF tl, where ?m0.0 = None and m = 0] assms(2)
  obtain s where s: "s \<le> t" "?cum ! s = Some 0" by (auto simp: compute_running_max_def)
  have "t < length (map (fadd (Some 1)) returns)" using assms(1) by simp
  from cumprod_from_absorbs[OF s(1) this, where acc = 1 and w = w] s(2) assms(3)
  show ?thesis by (simp add: compute_cumulative_returns_def cumprod_def)
qed

text \<open>
  Claim C2, amended. At every position where the return is present and the running
  peak of wealth is positive, the drawdown is \<open>(wealth - peak) / peak\<close>, it is at most
  0, and it is 0 exactly when wealth equals the running peak. (The peak is positive
  whenever the returns so far exceed -1, see \<open>peak_positive\<close>.)
\<close>

theorem drawdown_nonpositive:
  assumes "t < length returns"
    and "compute_cumulative_returns returns ! t = Some wealth"
    and "compute_running_max (compute_cumulative_returns returns) ! t = Some peak"
    and "0 < peak"
  shows "\<exists>d. compute_drawdown returns ! t = Some d \<and> d = (wealth - peak) / peak
             \<and> d \<le> 0 \<and> (d = 0 \<longleftrightarrow> wealth = peak)"
proof -
  let ?cum = "compute_cumulative_returns returns"
  have tl: "t < length ?cum" using assms(1) by (simp add: length_compute_cumulative_returns)
  from expanding_max_ge[OF tl assms(2), where ?m0.0 = None] assms(3)
  have le: "wealth \<le> peak" by (simp add: compute_running_max_def)
  have "compute_drawdown returns ! t = Some ((wealth - peak) / peak)"
    using assms by (simp add: drawdown_nth fdiv_def fsub_def)
  moreover have "(wealth - peak) / peak \<le> 0" using le assms(4) by (simp add: divide_le_0_iff)
  moreover have "(wealth - peak) / peak = 0 \<longleftrightarrow> wealth = peak" using assms(4) by simp
  ultimately show ?thesis by blast
qed

lemma cumprod_from_pos:
  "t < length xs \<Longrightarrow> 0 < acc \<Longrightarrow> \<forall>j\<le>t. \<forall>v. xs ! j = Some v \<longrightarrow> 0 < v \<Longrightarrow>
   cumprod_from acc xs ! t = Some w \<Longrightarrow> 0 < w"
proof (induction xs arbitrary: acc t)
  case Nil
  then show ?case by simp
next
  case (Cons x xs)
  show ?case
  proof (cases t)
    case 0
    then show ?thesis using Cons.prems by (cases x) auto
  next
    case (Suc k)
    have tail: "\<forall>j\<le>k. \<forall>v. xs ! j = Some v \<longrightarrow> 0 < v"
      using Cons.prems(3) Suc by (metis Suc_le_mono nth_Cons_Suc)
    show ?thesis
    proof (cases x)
      case None
      then show ?thesis using Cons.prems Suc Cons.IH[of k acc, OF _ _ tail] by simp
    next
      case (Some v)
      then have "0 < v" using Cons.prems(3) by (metis le0 nth_Cons_0)
      then have "0 < acc * v" using Cons.prems(2) by simp
      then show ?thesis using Cons.prems Suc Some Cons.IH[of k "acc * v", OF _ _ tail] by simp
    qed
  qed
qed

lemma peak_positive:
  assumes "t < length returns"
    and "\<forall>j\<le>t. \<forall>r. returns ! j = Some r \<longrightarrow> - 1 < r"
    and "returns ! t = Some r"
  shows "\<exists>w p. compute_cumulative_returns returns ! t = Some w
           \<and> compute_running_max (compute_cumulative_returns returns) ! t = Some p \<and> 0 < p"
proof -
  let ?xs = "map (fadd (Some 1)) returns"
  have tl: "t < length ?xs" using assms(1) by simp
  have pos: "\<forall>j\<le>t. \<forall>v. ?xs ! j = Some v \<longrightarrow> 0 < v"
    using assms(1,2) by (auto simp: fadd_def split: option.splits)
  have "?xs ! t = Some (1 + r)" using assms(1,3) by (simp add: fadd_def)
  have some: "\<And>ys acc k. k < length ys \<Longrightarrow> ys ! k \<noteq> None \<Longrightarrow> cumprod_from acc ys ! k \<noteq> None"
  proof -
    fix ys :: series and acc k
    show "k < length ys \<Longrightarrow> ys ! k \<noteq> None \<Longrightarrow> cumprod_from acc ys ! k \<noteq> None"
    proof (induction ys arbitrary: acc k)
      case Nil
      then show ?case by simp
    next
      case (Cons y ys)
      then show ?case by (cases y; cases k) auto
    qed
  qed
  from some[OF tl, where acc = 1] \<open>?xs ! t = Some (1 + r)\<close>
  obtain w where w: "cumprod_from 1 ?xs ! t = Some w" by auto
  from cumprod_from_pos[OF tl _ pos w] have "0 < w" by simp
  have cw: "compute_cumulative_returns returns ! t = Some w"
    using w by (simp add: compute_cumulative_returns_def cumprod_def)
  have "t < length (compute_cumulative_returns returns)"
    using assms(1) by (simp add: length_compute_cumulative_returns)
  from expanding_max_ge[OF this cw, where ?m0.0 = None] obtain p where
    "compute_running_max (compute_cumulative_returns returns) ! t = Some p" "w \<le> p"
    by (auto simp: compute_running_max_def)
  then show ?thesis using cw \<open>0 < w\<close> by auto
qed

theorem drawdown_nonpositive_witness:
  "\<exists>d. compute_drawdown [Some 1, Some (- 1 / 2)] ! 1 = Some d \<and> d = (1 - 2) / 2
             \<and> d \<le> 0 \<and> (d = 0 \<longleftrightarrow> (1::real) = 2)"
proof -
  have c: "compute_cumulative_returns [Some 1, Some (- 1 / 2)] = [Some 2, Some 1]"
    by (simp add: compute_cumulative_returns_def cumprod_def fadd_def)
  have m: "compute_running_max [Some 2, Some 1] = [Some 2, Some 2]"
    by (simp add: compute_running_max_def nanmax_def)
  show ?thesis
    using drawdown_nonpositive[of 1 "[Some 1, Some (- 1 / 2)]" 1 2] c m by simp
qed

text \<open>
  Claim C2 as stated, for every return series, fails: with returns -2 and then 1 the
  wealth is -1, -2, the running peak is -1, and the drawdown at the second position
  is 1.
\<close>

theorem drawdown_positive_counterexample:
  "\<not> fle (compute_drawdown [Some (- 2), Some 1] ! 1) (Some 0)"
  by (simp add: compute_drawdown_def compute_cumulative_returns_def cumprod_def fadd_def
      compute_running_max_def nanmax_def fdiv_def fsub_def fle_def)

theorem episode_closed_on_recovery_witness:
  "\<exists>before rest.
     compute_drawdown_episodes 10 [(0::nat, Some 1), (1, Some (- 1 / 2)), (2, Some 1), (3, Some 0)]
       = Inr (before @ [\<lparr> start_date = 1, trough_date = 1, end_date = 1,
                           depth_pct = Some (- 50), duration_days = 1,
                           start_value = Some 1, trough_value = Some 1 \<rparr>] @ rest)"
proof -
  let ?R = "[(0::nat, Some (1::real)), (1, Some (- 1 / 2)), (2, Some 1), (3, Some 0)]"
  have c: "compute_cumulative_returns (map snd ?R) = [Some 2, Some 1, Some 2, Some 2]"
    by (simp add: compute_cumulative_returns_def cumprod_def fadd_def)
  have d: "compute_drawdown (map snd ?R) = [Some 0, Some (- 1 / 2), Some 0, Some 0]"
    unfolding compute_drawdown_def c Let_def
    by (simp add: compute_running_max_def nanmax_def fdiv_def fsub_def)
  have run: "\<forall>j. 1 \<le> j \<and> j < 2 \<longrightarrow> flt (compute_drawdown (map snd ?R) ! j) (Some 0)"
  proof (intro allI impI)
    fix j :: nat assume "1 \<le> j \<and> j < 2"
    then have "j = 1" by arith
    then show "flt (compute_drawdown (map snd ?R) ! j) (Some 0)"
      unfolding d by (simp add: flt_def)
  qed
  have first: "(1::nat) = 0 \<or> \<not> flt (compute_drawdown (map snd ?R) ! (1 - 1)) (Some 0)"
    unfolding d by (simp add: flt_def)
  have recov: "\<not> flt (compute_drawdown (map snd ?R) ! 2) (Some 0)"
    unfolding d by (simp add: flt_def)
  from episode_closed_on_recovery[of 2 ?R 1, OF _ _ run first recov, of 10]
  obtain before trough depth emitted rest where
    tr: "1 \<le> trough" "trough \<le> 2 - 1"
    and dp: "compute_drawdown (map snd ?R) ! trough = Some depth"
    and em: "emitted = (if 10 / 100 \<le> \<bar>depth\<bar>
                       then [\<lparr> start_date = map fst ?R ! 1, trough_date = map fst ?R ! trough,
                                end_date = map fst ?R ! (2 - 1), depth_pct = Some (depth * 100),
                                duration_days = (2 - 1) - 1 + 1,
                                start_value = compute_cumulative_returns (map snd ?R) ! 1,
                                trough_value = compute_cumulative_returns (map snd ?R) ! trough \<rparr>]
                       else [])"
    and res: "compute_drawdown_episodes 10 ?R = Inr (before @ emitted @ rest)"
    by auto
  have t1: "trough = 1" using tr by simp
  have "depth = - 1 / 2" using dp unfolding d t1 by simp
  then have "emitted = [\<lparr> start_date = 1, trough_date = 1, end_date = 1,
                           depth_pct = Some (- 50), duration_days = 1,
                           start_value = Some 1, trough_value = Some 1 \<rparr>]"
    using em unfolding c t1 by simp
  then show ?thesis using res by blast
qed

theorem episode_open_at_end_witness:
  "\<exists>before.
     compute_drawdown_episodes 10 [(0::nat, Some 1), (1, Some (- 1 / 2)), (2, Some (- 1 / 2))]
       = Inr (before @ [\<lparr> start_date = 1, trough_date = 2, end_date = 2,
                           depth_pct = Some (- 75), duration_days = 2,
                           start_value = Some 1, trough_value = Some (1 / 2) \<rparr>])"
proof -
  let ?R = "[(0::nat, Some (1::real)), (1, Some (- 1 / 2)), (2, Some (- 1 / 2))]"
  have c: "compute_cumulative_returns (map snd ?R) = [Some 2, Some 1, Some (1 / 2)]"
    by (simp add: compute_cumulative_returns_def cumprod_def fadd_def)
  have d: "compute_drawdown (map snd ?R) = [Some 0, Some (- 1 / 2), Some (- 3 / 4)]"
    unfolding compute_drawdown_def c Let_def
    by (simp add: compute_running_max_def nanmax_def fdiv_def fsub_def)
  have run: "\<forall>j. 1 \<le> j \<and> j < length ?R \<longrightarrow> flt (compute_drawdown (map snd ?R) ! j) (Some 0)"
  proof (intro allI impI)
    fix j :: nat assume "1 \<le> j \<and> j < length ?R"
    then have "j = 1 \<or> j = 2" by auto
    then show "flt (compute_drawdown (map snd ?R) ! j) (Some 0)"
      unfolding d by (auto simp: flt_def)
  qed
  have first: "(1::nat) = 0 \<or> \<not> flt (compute_drawdown (map snd ?R) ! (1 - 1)) (Some 0)"
    unfolding d by (simp add: flt_def)
  from episode_open_at_end[of 1 ?R, OF _ run first, of 10]
  obtain before trough depth where
    tr: "1 \<le> trough" "trough \<le> length ?R - 1"
    and dp: "compute_drawdown (map snd ?R) ! trough = Some depth"
    and low: "\<forall>j. 1 \<le> j \<and> j \<le> length ?R - 1 \<longrightarrow>
                (\<exists>v. compute_drawdown (map snd ?R) ! j = Some v \<and> depth \<le> v)"
    and res: "compute_drawdown_episodes 10 ?R =
             Inr (before @
                  (if 10 / 100 \<le> \<bar>depth\<bar>
                   then [\<lparr> start_date = map fst ?R ! 1, trough_date = map fst ?R ! trough,
                            end_date = last (map fst ?R), depth_pct = Some (depth * 100),
                            duration_days = (length ?R - 1) - 1 + 1,
                            start_value = compute_cumulative_returns (map snd ?R) ! 1,
                            trough_value = compute_cumulative_returns (map snd ?R) ! trough \<rparr>]
                   else []))"
    by auto
  have "trough = 1 \<or> trough = 2" using tr by auto
  moreover have "depth \<le> - 3 / 4" using low[rule_format, of 2] unfolding d by simp
  ultimately have t2: "trough = 2" using dp unfolding d by auto
  then have "depth = - 3 / 4" using dp unfolding d by simp
  then show ?thesis using res unfolding c t2 by simp
qed

subsection \<open>Winsoriser and composite\<close>




text \<open>
  Claim C1 (winsorised values lie within the percentile bounds, missing stays
  missing). The code does not deliver the capping: \<open>series.combine_first(winsorized)\<close>
  keeps every present entry of the input, so the result is the input itself
  (\<open>winsorize_series_unchanged\<close>). Evaluated with percentiles (25, 75) on the
  series -100, 1, 2, 100: scipy's winsorised array is 1, 1, 2, 2, and the function
  returns -100, 1, 2, 100.
\<close>

theorem winsorize_series_keeps_outliers:
  "mstats_winsorize (25 / 100) ((100 - 75) / 100) [- 100, 1, 2, 100] = Inr [1, 1, 2, 2]
   \<and> winsorize_series 25 75 [(0::nat, Some (- 100)), (1, Some 1), (2, Some 2), (3, Some 100)]
       = Inr [(0, Some (- 100)), (1, Some 1), (2, Some 2), (3, Some 100)]"
proof -
  have w: "mstats_winsorize (25 / 100) ((100 - 75) / 100) [- 100, 1, 2, 100] = Inr [1, 1, 2, 2]"
    by (simp add: mstats_winsorize_def argsort_def assign_at_def Let_def
        upt_rec[of 0] upt_rec[of 1] upt_rec[of 2] upt_rec[of 3] upt_rec[of 4])
  have d: "present (map snd (dropna [(0::nat, Some (- 100)), (1, Some 1), (2, Some 2), (3, Some 100)]))
           = [- 100, 1, 2, 100]"
    by (simp add: dropna_def present_def)
  have "winsorize_series 25 75 [(0::nat, Some (- 100)), (1, Some 1), (2, Some 2), (3, Some 100)]
       = Inr [(0, Some (- 100)), (1, Some 1), (2, Some 2), (3, Some 100)]"
    unfolding winsorize_series_def Let_def d w
    by (simp add: dropna_def combine_first_def index_union_def)
  then show ?thesis using w by simp
qed









subsection \<open>Z-score\<close>

lemma length_rolling_windows: "length (rolling_windows w xs) = length xs"
  by (simp add: rolling_windows_def)

lemma rolling_apply_ok:
  assumes "0 \<le> window" "0 \<le> min_periods" "min_periods \<le> window"
  shows "rolling_apply window min_periods f xs =
           Inr (map (\<lambda>win. if min_periods \<le> int (length (present win)) then f win else None)
                    (rolling_windows (nat window) xs))"
  using assms by (simp add: rolling_apply_def)

lemma rolling_apply_length:
  "rolling_apply window min_periods f xs = Inr ys \<Longrightarrow> length ys = length xs"
  by (auto simp: rolling_apply_def length_rolling_windows split: if_splits)

lemma rolling_apply_error:
  "rolling_apply window min_periods f xs = Inl e \<Longrightarrow> \<exists>msg. e = ValueError msg"
  by (auto simp: rolling_apply_def split: if_splits)

lemma fdiv_None [simp]: "fdiv a None = None"
  by (simp add: fdiv_def split: option.splits)

lemma compute_zscore_ok:
  assumes "0 \<le> window"
  shows "\<exists>z rolling_mean rolling_std.
           rolling_apply window (window div 2) nanmean series = Inr rolling_mean
         \<and> rolling_apply window (window div 2) roll_std series = Inr rolling_std
         \<and> compute_zscore series window None = Inr z
         \<and> length z = length series
         \<and> (\<forall>t<length series. z ! t =
               fdiv (fsub (series ! t) (rolling_mean ! t)) (replace_zero_nan (rolling_std ! t)))"
proof -
  have mp: "0 \<le> window div 2" "window div 2 \<le> window" using assms by auto
  obtain rm where rm: "rolling_apply window (window div 2) nanmean series = Inr rm"
    using rolling_apply_ok[OF assms mp] by blast
  obtain rs where rs: "rolling_apply window (window div 2) roll_std series = Inr rs"
    using rolling_apply_ok[OF assms mp] by blast
  have l: "length rm = length series" "length rs = length series"
    using rm rs by (auto dest: rolling_apply_length)
  let ?z = "map (\<lambda>(x, m, s). fdiv (fsub x m) (replace_zero_nan s)) (zip series (zip rm rs))"
  have z: "compute_zscore series window None = Inr ?z"
    using rm rs by (simp add: compute_zscore_def)
  have "length ?z = length series" using l by simp
  moreover have "\<forall>t<length series. ?z ! t =
               fdiv (fsub (series ! t) (rm ! t)) (replace_zero_nan (rs ! t))"
    using l by simp
  ultimately show ?thesis using rm rs z by blast
qed

text \<open>
  Claim C7. With a valid (non-negative) window and the default minimum number of
  observations \<open>window // 2\<close>, \<open>compute_zscore\<close> returns a series as long as its
  input that is missing wherever the rolling standard deviation is zero; and for no
  input at all is the outcome a division-by-zero error.
\<close>

theorem zscore_zero_std_missing:
  "(0 \<le> window \<longrightarrow>
      (\<exists>z rolling_std.
          rolling_apply window (window div 2) roll_std series = Inr rolling_std
        \<and> compute_zscore series window None = Inr z
        \<and> length z = length series
        \<and> (\<forall>t<length series. rolling_std ! t = Some 0 \<longrightarrow> z ! t = None)))
   \<and> compute_zscore series window min_periods \<noteq> Inl ZeroDivisionError"
proof
  show "0 \<le> window \<longrightarrow>
      (\<exists>z rolling_std.
          rolling_apply window (window div 2) roll_std series = Inr rolling_std
        \<and> compute_zscore series window None = Inr z
        \<and> length z = length series
        \<and> (\<forall>t<length series. rolling_std ! t = Some 0 \<longrightarrow> z ! t = None))"
  proof
    assume "0 \<le> window"
    from compute_zscore_ok[OF this, of series] obtain z rm rs where
      rs: "rolling_apply window (window div 2) roll_std series = Inr rs"
      and z: "compute_zscore series window None = Inr z" "length z = length series"
      and v: "\<forall>t<length series. z ! t =
               fdiv (fsub (series ! t) (rm ! t)) (replace_zero_nan (rs ! t))"
      by blast
    have "\<forall>t<length series. rs ! t = Some 0 \<longrightarrow> z ! t = None"
      using v by (simp add: replace_zero_nan_def)
    then show "\<exists>z rolling_std.
          rolling_apply window (window div 2) roll_std series = Inr rolling_std
        \<and> compute_zscore series window None = Inr z
        \<and> length z = length series
        \<and> (\<forall>t<length series. rolling_std ! t = Some 0 \<longrightarrow> z ! t = None)"
      using rs z by blast
  qed
next
  show "compute_zscore series window min_periods \<noteq> Inl ZeroDivisionError"
    by (auto simp: compute_zscore_def Let_def split: sum.splits dest!: rolling_apply_error)
qed

theorem zscore_zero_std_missing_witness:
  "\<exists>z. compute_zscore [Some 1, Some 1, Some 1] 2 None = Inr z \<and> z ! 1 = None"
proof -
  have rs: "rolling_apply 2 (2 div 2) roll_std [Some 1, Some 1, Some 1] = Inr [None, Some 0, Some 0]"
    by (simp add: rolling_apply_def rolling_windows_def roll_std_def present_def Let_def
        upt_rec[of 0] upt_rec[of 1] upt_rec[of 2] upt_rec[of 3])
  from zscore_zero_std_missing[of 2 "[Some 1, Some 1, Some 1]" None] rs
  show ?thesis by auto
qed

subsection \<open>Crash classifier\<close>

lemma present_Cons:
  "present (x # xs) = (case x of None \<Rightarrow> [] | Some v \<Rightarrow> [v]) @ present xs"
  by (simp add: present_def)

lemma sort_cong_mset: "mset a = mset b \<Longrightarrow> sort a = sort (b :: real list)"
  by (rule properties_for_sort[symmetric]) simp_all

lemma expanding_quantile_from_nth:
  "sorted sl \<Longrightarrow> t < length xs \<Longrightarrow>
   expanding_quantile_from q sl xs ! t =
     quantile_sorted (sort (sl @ present (take (Suc t) xs))) q"
proof (induction xs arbitrary: sl t)
  case Nil
  then show ?case by simp
next
  case (Cons x xs)
  define sl' where "sl' = (case x of None \<Rightarrow> sl | Some v \<Rightarrow> insort v sl)"
  have s': "sorted sl'" using Cons.prems(1) by (simp add: sl'_def sorted_insort split: option.splits)
  have ms: "mset sl' = mset (sl @ (case x of None \<Rightarrow> [] | Some v \<Rightarrow> [v]))"
    by (simp add: sl'_def split: option.splits)
  show ?case
  proof (cases t)
    case 0
    have "sort (sl @ present (take (Suc 0) (x # xs))) = sl'"
      by (rule properties_for_sort) (simp_all add: present_Cons ms s' present_def)
    then show ?thesis using 0 by (simp add: sl'_def Let_def)
  next
    case (Suc k)
    then have k: "k < length xs" using Cons.prems(2) by simp
    have "mset (sl' @ present (take (Suc k) xs)) = mset (sl @ present (take (Suc (Suc k)) (x # xs)))"
      by (simp add: present_Cons ms)
    then have "sort (sl' @ present (take (Suc k) xs)) = sort (sl @ present (take (Suc (Suc k)) (x # xs)))"
      by (rule sort_cong_mset)
    then show ?thesis using Suc Cons.IH[OF s' k] by (simp add: sl'_def Let_def)
  qed
qed

lemma length_expanding_quantile_from: "length (expanding_quantile_from q sl xs) = length xs"
  by (induction xs arbitrary: sl) (auto simp: Let_def)

lemma period_returns_of_ok:
  assumes "0 \<le> window"
  shows "\<exists>period_returns. period_returns_of returns window = Inr period_returns
           \<and> length period_returns = length returns"
proof (cases "window = 1")
  case True
  then show ?thesis by (simp add: period_returns_of_def)
next
  case False
  then show ?thesis using assms
    by (simp add: period_returns_of_def rolling_apply_ok length_rolling_windows)
qed

text \<open>
  Claim C4. For a crash percentile in \<open>[0, 100]\<close> and a valid window the classifier
  returns one flag per timestamp. With method \<open>historical\<close> the flag at \<open>t\<close> says
  that the period return at \<open>t\<close> is strictly below the quantile of all period
  returns; with method \<open>rolling\<close> it says that the period return at \<open>t\<close> is
  strictly below the quantile of the period returns at positions \<open>0, \<dots>, t\<close> only.
\<close>

theorem crash_flags_exact:
  assumes cp: "0 \<le> crash_percentile" "crash_percentile \<le> 100" and w: "0 \<le> window"
  shows "\<exists>period_returns threshold historical_flags rolling_flags.
           period_returns_of returns window = Inr period_returns
         \<and> length period_returns = length returns
         \<and> quantile (crash_percentile / 100) period_returns = Inr threshold
         \<and> identify_crash_events crash_percentile returns window ''historical''
             = Inr historical_flags
         \<and> length historical_flags = length returns
         \<and> (\<forall>t<length returns. historical_flags ! t = flt (period_returns ! t) threshold)
         \<and> identify_crash_events crash_percentile returns window ''rolling''
             = Inr rolling_flags
         \<and> length rolling_flags = length returns
         \<and> (\<forall>t<length returns. \<exists>threshold_t.
               quantile (crash_percentile / 100) (take (Suc t) period_returns) = Inr threshold_t
             \<and> rolling_flags ! t = flt (period_returns ! t) threshold_t)"
proof -
  let ?q = "crash_percentile / 100"
  have q: "\<not> (?q < 0 \<or> 1 < ?q)" using cp by simp
  from period_returns_of_ok[OF w, of returns] obtain pr where
    pr: "period_returns_of returns window = Inr pr" and len: "length pr = length returns"
    by blast
  let ?th = "quantile_sorted (sort (present pr)) ?q"
  have qt: "quantile ?q pr = Inr ?th" using q by (simp add: quantile_def)
  let ?hf = "map (\<lambda>r. flt r ?th) pr"
  have h: "identify_crash_events crash_percentile returns window ''historical'' = Inr ?hf"
    using pr qt by (simp add: identify_crash_events_def)
  have hl: "length ?hf = length returns" using len by simp
  have hv: "\<forall>t<length returns. ?hf ! t = flt (pr ! t) ?th" using len by simp
  let ?rt = "expanding_quantile_from ?q [] pr"
  have eq: "expanding_quantile ?q pr = Inr ?rt" using q by (simp add: expanding_quantile_def)
  let ?rf = "map (\<lambda>(r, th). flt r th) (zip pr ?rt)"
  have r: "identify_crash_events crash_percentile returns window ''rolling'' = Inr ?rf"
    using pr eq by (simp add: identify_crash_events_def)
  have rl: "length ?rf = length returns" using len by (simp add: length_expanding_quantile_from)
  have rv: "\<forall>t<length returns. \<exists>threshold_t.
               quantile ?q (take (Suc t) pr) = Inr threshold_t
             \<and> ?rf ! t = flt (pr ! t) threshold_t"
  proof (intro allI impI)
    fix t assume t: "t < length returns"
    then have tl: "t < length pr" using len by simp
    have "?rt ! t = quantile_sorted (sort (present (take (Suc t) pr))) ?q"
      using expanding_quantile_from_nth[OF _ tl, of "[]" ?q] by simp
    moreover have "quantile ?q (take (Suc t) pr) =
                   Inr (quantile_sorted (sort (present (take (Suc t) pr))) ?q)"
      using q by (simp add: quantile_def)
    moreover have "?rf ! t = flt (pr ! t) (?rt ! t)"
      using tl by (simp add: length_expanding_quantile_from)
    ultimately show "\<exists>threshold_t.
               quantile ?q (take (Suc t) pr) = Inr threshold_t
             \<and> ?rf ! t = flt (pr ! t) threshold_t" by simp
  qed
  show ?thesis using pr len qt h hl hv r rl rv by blast
qed

theorem crash_flags_exact_witness:
  "\<exists>historical_flags rolling_flags.
     identify_crash_events 50 [Some 3, Some 1, Some 2] 1 ''historical'' = Inr historical_flags
   \<and> historical_flags = [False, True, False]
   \<and> identify_crash_events 50 [Some 3, Some 1, Some 2] 1 ''rolling'' = Inr rolling_flags
   \<and> rolling_flags = [False, True, False]"
proof -
  let ?R = "[Some (3::real), Some 1, Some 2]"
  have pr: "period_returns_of ?R 1 = Inr ?R" by (simp add: period_returns_of_def)
  have q3: "quantile (50 / 100) ?R = Inr (Some 2)"
    by (simp add: quantile_def quantile_sorted_def present_def Let_def)
  have q1: "quantile (50 / 100) (take (Suc 0) ?R) = Inr (Some 3)"
    by (simp add: quantile_def quantile_sorted_def present_def Let_def)
  have q2: "quantile (50 / 100) (take (Suc 1) ?R) = Inr (Some 2)"
    by (simp add: quantile_def quantile_sorted_def present_def Let_def)
  have q3': "quantile (50 / 100) (take (Suc 2) ?R) = Inr (Some 2)"
    by (simp add: quantile_def quantile_sorted_def present_def Let_def)
  from crash_flags_exact[of 50 1 ?R] obtain period_returns threshold hf rf where
    p: "period_returns_of ?R 1 = Inr period_returns"
    and t: "quantile (50 / 100) period_returns = Inr threshold"
    and h: "identify_crash_events 50 ?R 1 ''historical'' = Inr hf" "length hf = length ?R"
    and hv: "\<forall>t<length ?R. hf ! t = flt (period_returns ! t) threshold"
    and r: "identify_crash_events 50 ?R 1 ''rolling'' = Inr rf" "length rf = length ?R"
    and rv: "\<forall>t<length ?R. \<exists>threshold_t.
               quantile (50 / 100) (take (Suc t) period_returns) = Inr threshold_t
             \<and> rf ! t = flt (period_returns ! t) threshold_t"
    by auto
  have pe: "period_returns = ?R" using p pr by simp
  have th: "threshold = Some 2" using t q3 pe by simp
  have "hf ! 0 = False" "hf ! 1 = True" "hf ! 2 = False"
    using hv[rule_format, of 0] hv[rule_format, of 1] hv[rule_format, of 2]
    by (simp_all add: pe th flt_def)
  then have hf: "hf = [False, True, False]" using h(2)
    by (intro nth_equalityI) (auto simp: less_Suc_eq numeral_3_eq_3 numeral_2_eq_2)
  have "rf ! 0 = False" "rf ! 1 = True" "rf ! 2 = False"
    using rv[rule_format, of 0] rv[rule_format, of 1] rv[rule_format, of 2] q1 q2 q3'
    by (auto simp: pe flt_def)
  then have rf: "rf = [False, True, False]" using r(2)
    by (intro nth_equalityI) (auto simp: less_Suc_eq numeral_3_eq_3 numeral_2_eq_2)
  show ?thesis using h(1) r(1) hf rf by blast
qed

text \<open>
  Claim C8. A method string other than \<open>historical\<close> and \<open>rolling\<close> is always
  rejected with an error, never answered with flags; with a valid (non-negative)
  window the error is the ValueError that names the method string.
\<close>

theorem unknown_method_rejected:
  assumes "method \<noteq> ''historical''" "method \<noteq> ''rolling''"
  shows "(\<exists>e. identify_crash_events crash_percentile returns window method = Inl e)
       \<and> (0 \<le> window \<longrightarrow>
            identify_crash_events crash_percentile returns window method
              = Inl (ValueError (''Unknown method: '' @ method)))"
proof
  show "\<exists>e. identify_crash_events crash_percentile returns window method = Inl e"
    using assms by (cases "period_returns_of returns window") (simp_all add: identify_crash_events_def)
next
  show "0 \<le> window \<longrightarrow>
            identify_crash_events crash_percentile returns window method
              = Inl (ValueError (''Unknown method: '' @ method))"
  proof
    assume "0 \<le> window"
    from period_returns_of_ok[OF this, of returns] obtain pr where
      "period_returns_of returns window = Inr pr" by blast
    then show "identify_crash_events crash_percentile returns window method
              = Inl (ValueError (''Unknown method: '' @ method))"
      using assms by (simp add: identify_crash_events_def)
  qed
qed

theorem unknown_method_rejected_witness:
  "identify_crash_events 1 [Some (1 / 100), Some (- 5 / 100)] 1 ''expanding''
     = Inl (ValueError ''Unknown method: expanding'')"
  using unknown_method_rejected[of "''expanding''" 1 "[Some (1 / 100), Some (- 5 / 100)]" 1]
  by simp

subsection \<open>Co-movement proxy\<close>

text \<open>
  Claim C9. With fewer than two columns whose name ends in \<open>_ret\<close> the co-movement
  builder logs the warning and returns the empty table on the index of its input; it
  does not raise, whatever the window and the correlation routine.
\<close>

theorem comovement_needs_two:
  assumes "length (filter (\<lambda>col. endswith col ''_ret'') (map fst (df_columns returns))) < 2"
  shows "build_comovement_proxy rolling_corr medium_window returns =
           ([(INFO, ''Building co-movement crowding proxy...''),
             (WARNING, ''Need at least 2 ETFs for correlation proxy'')],
            Inr \<lparr> df_index = df_index returns, df_columns = [] \<rparr>)"
  using assms by (simp add: build_comovement_proxy_def Let_def)

theorem comovement_needs_two_witness:
  "build_comovement_proxy (\<lambda>w x y. Inl (ValueError ''unused'')) (- 1)
     \<lparr> df_index = [0::nat, 1],
        df_columns = [(''MTUM_ret'', [Some (1 / 100), None]), (''Mom'', [Some 0, Some 1])] \<rparr> =
     ([(INFO, ''Building co-movement crowding proxy...''),
       (WARNING, ''Need at least 2 ETFs for correlation proxy'')],
      Inr \<lparr> df_index = [0, 1], df_columns = [] \<rparr>)"
  using comovement_needs_two[of "\<lparr> df_index = [0::nat, 1],
        df_columns = [(''MTUM_ret'', [Some (1 / 100), None]), (''Mom'', [Some 0, Some 1])] \<rparr>"
        "\<lambda>w x y. Inl (ValueError ''unused'')" "- 1"]
  by (simp add: endswith_def suffix_def)

lemma and_then_Inr [simp]: "and_then (Inr x) f = f x"
  by (simp add: and_then_def)

lemma and_then_Inl [simp]: "and_then (Inl e) f = Inl e"
  by (simp add: and_then_def)

lemma set_column_ok:
  assumes "idx = df_index df \<or> distinct idx"
  shows "\<exists>df'. set_column df name idx col = Inr df' \<and> df_index df' = df_index df
           \<and> fst ` set (df_columns df') = insert name (fst ` set (df_columns df))"
proof (cases "idx = df_index df")
  case True
  then show ?thesis by (simp add: set_column_def dom_update)
next
  case False
  then have "distinct idx" using assms by simp
  then show ?thesis using False by (simp add: set_column_def dom_update)
qed

subsection \<open>Flow-attention proxy\<close>

lemma column_ok:
  "name \<in> fst ` set (df_columns df) \<Longrightarrow> \<exists>c. column df name = Inr c"
proof -
  assume "name \<in> fst ` set (df_columns df)"
  then have "map_of (df_columns df) name \<noteq> None" by (simp add: map_of_eq_None_iff)
  then show ?thesis by (auto simp: column_def)
qed

lemma zscore_Inr: "0 \<le> window \<Longrightarrow> \<exists>z. compute_zscore s window None = Inr z"
  using compute_zscore_ok by blast

lemma rolling_full_Inr: "0 \<le> window \<Longrightarrow> \<exists>ys. rolling_apply window window f xs = Inr ys"
  by (simp add: rolling_apply_ok)

lemma volume_component_ok:
  assumes sw: "0 \<le> short_window"
    and vi: "df_index volumes = df_index components \<or> distinct (df_index volumes)"
  shows "\<exists>c'. volume_component short_window volumes components n = Inr c'
           \<and> df_index c' = df_index components
           \<and> fst ` set (df_columns c') = fst ` set (df_columns components)
                \<union> (if n @ ''_vol'' \<in> set (map fst (df_columns volumes))
                    then {n @ ''_vol_zscore''} else {})"
proof (cases "n @ ''_vol'' \<in> set (map fst (df_columns volumes))")
  case False
  have "volume_component short_window volumes components n = Inr components"
    unfolding volume_component_def Let_def by (rule if_not_P[OF False])
  then show ?thesis using False by auto
next
  case True
  then have "n @ ''_vol'' \<in> fst ` set (df_columns volumes)" by simp
  from column_ok[OF this] obtain v where v: "column volumes (n @ ''_vol'') = Inr v" by blast
  obtain z where z: "compute_zscore v short_window None = Inr z" using zscore_Inr[OF sw] by blast
  from set_column_ok[OF vi, of "n @ ''_vol_zscore''" z] obtain c1 where
    c1: "set_column components (n @ ''_vol_zscore'') (df_index volumes) z = Inr c1"
    "df_index c1 = df_index components"
    "fst ` set (df_columns c1) = insert (n @ ''_vol_zscore'') (fst ` set (df_columns components))"
    by blast
  have "volume_component short_window volumes components n = Inr c1"
    unfolding volume_component_def Let_def if_P[OF True] v and_then_Inr z by (rule c1(1))
  then show ?thesis using True c1(2,3) by auto
qed

lemma runup_component_ok:
  assumes mw: "0 \<le> medium_window"
    and tk: "ticker \<in> fst ` set (df_columns returns)"
    and ci: "df_index components = df_index returns"
  shows "\<exists>c'. runup_component medium_window returns components ticker n = Inr c'
           \<and> df_index c' = df_index components
           \<and> fst ` set (df_columns c') = insert (n @ ''_ret_zscore'') (fst ` set (df_columns components))"
proof -
  obtain r where r: "column returns ticker = Inr r" using column_ok[OF tk] by blast
  obtain cum where cum: "rolling_apply medium_window medium_window prod_minus_one
                        (map (fadd (Some 1)) r) = Inr cum" using rolling_full_Inr[OF mw] by blast
  obtain rz where rz: "compute_zscore cum medium_window None = Inr rz"
    using zscore_Inr[OF mw] by blast
  have "df_index returns = df_index components \<or> distinct (df_index returns)" using ci by simp
  from set_column_ok[OF this, of "n @ ''_ret_zscore''" rz] obtain c2 where
    c2: "set_column components (n @ ''_ret_zscore'') (df_index returns) rz = Inr c2"
    "df_index c2 = df_index components"
    "fst ` set (df_columns c2) = insert (n @ ''_ret_zscore'') (fst ` set (df_columns components))"
    by blast
  have "runup_component medium_window returns components ticker n = Inr c2"
    unfolding runup_component_def r and_then_Inr cum rz by (rule c2(1))
  then show ?thesis using c2(2,3) by blast
qed

lemma crash_frequency_component_ok:
  assumes sw: "0 \<le> short_window"
    and tk: "ticker \<in> fst ` set (df_columns returns)"
    and ci: "df_index components = df_index returns"
  shows "\<exists>c'. crash_frequency_component short_window returns components ticker n = Inr c'
           \<and> df_index c' = df_index components
           \<and> fst ` set (df_columns c') = insert (n @ ''_crash_freq'') (fst ` set (df_columns components))"
proof -
  obtain r where r: "column returns ticker = Inr r" using column_ok[OF tk] by blast
  obtain th where th: "quantile (5 / 100) r = Inr th" by (simp add: quantile_def)
  obtain cf where cf: "rolling_apply short_window short_window roll_sum
                         (map (\<lambda>x. if flt x th then Some 1 else Some 0) r) = Inr cf"
    using rolling_full_Inr[OF sw] by blast
  obtain cz where cz: "compute_zscore cf short_window None = Inr cz"
    using zscore_Inr[OF sw] by blast
  have "df_index returns = df_index components \<or> distinct (df_index returns)" using ci by simp
  from set_column_ok[OF this, of "n @ ''_crash_freq''" cz] obtain c3 where
    c3: "set_column components (n @ ''_crash_freq'') (df_index returns) cz = Inr c3"
    "df_index c3 = df_index components"
    "fst ` set (df_columns c3) = insert (n @ ''_crash_freq'') (fst ` set (df_columns components))"
    by blast
  have "crash_frequency_component short_window returns components ticker n = Inr c3"
    unfolding crash_frequency_component_def r and_then_Inr th Let_def cf cz by (rule c3(1))
  then show ?thesis using c3(2,3) by blast
qed

lemma flow_attention_ticker_ok:
  assumes sw: "0 \<le> short_window" and mw: "0 \<le> medium_window"
    and tk: "ticker \<in> fst ` set (df_columns returns)"
    and vi: "df_index volumes = df_index returns \<or> distinct (df_index volumes)"
    and ci: "df_index components = df_index returns"
  shows "\<exists>c'. flow_attention_ticker short_window medium_window returns volumes components ticker
                 = Inr c'
           \<and> df_index c' = df_index returns
           \<and> fst ` set (df_columns c') =
               fst ` set (df_columns components) \<union> ticker_components volumes ticker"
proof (cases "endswith ticker ''_ret''")
  case False
  have "flow_attention_ticker short_window medium_window returns volumes components ticker
          = Inr components"
    unfolding flow_attention_ticker_def by (rule if_not_P[OF False])
  moreover have "ticker_components volumes ticker = {}"
    unfolding ticker_components_def by (rule if_not_P[OF False])
  ultimately show ?thesis using ci by simp
next
  case True
  define n where "n = str_replace ''_ret'' [] ticker"
  have "df_index volumes = df_index components \<or> distinct (df_index volumes)" using vi ci by simp
  from volume_component_ok[OF sw this, of n] obtain c1 where
    c1: "volume_component short_window volumes components n = Inr c1"
    "df_index c1 = df_index components"
    "fst ` set (df_columns c1) = fst ` set (df_columns components)
                \<union> (if n @ ''_vol'' \<in> set (map fst (df_columns volumes))
                    then {n @ ''_vol_zscore''} else {})" by blast
  have i1: "df_index c1 = df_index returns" using c1(2) ci by simp
  from runup_component_ok[OF mw tk i1, of n] obtain c2 where
    c2: "runup_component medium_window returns c1 ticker n = Inr c2"
    "df_index c2 = df_index c1"
    "fst ` set (df_columns c2) = insert (n @ ''_ret_zscore'') (fst ` set (df_columns c1))"
    by blast
  have i2: "df_index c2 = df_index returns" using c2(2) i1 by simp
  from crash_frequency_component_ok[OF sw tk i2, of n] obtain c3 where
    c3: "crash_frequency_component short_window returns c2 ticker n = Inr c3"
    "df_index c3 = df_index c2"
    "fst ` set (df_columns c3) = insert (n @ ''_crash_freq'') (fst ` set (df_columns c2))"
    by blast
  have "flow_attention_ticker short_window medium_window returns volumes components ticker = Inr c3"
    unfolding flow_attention_ticker_def if_P[OF True] Let_def n_def[symmetric]
      c1(1) and_then_Inr c2(1) by (rule c3(1))
  moreover have "df_index c3 = df_index returns" using c3(2) i2 by simp
  moreover have tc: "ticker_components volumes ticker =
      {n @ ''_ret_zscore'', n @ ''_crash_freq''}
            \<union> (if n @ ''_vol'' \<in> set (map fst (df_columns volumes))
               then {n @ ''_vol_zscore''} else {})"
    unfolding ticker_components_def if_P[OF True] Let_def n_def[symmetric] by (rule refl)
  have "fst ` set (df_columns c3) =
               fst ` set (df_columns components) \<union> ticker_components volumes ticker"
    unfolding tc c3(3) c2(3) c1(3) by blast
  ultimately show ?thesis by blast
qed

lemma flow_attention_loop_ok:
  assumes sw: "0 \<le> short_window" and mw: "0 \<le> medium_window"
    and vi: "df_index volumes = df_index returns \<or> distinct (df_index volumes)"
  shows "set tickers \<subseteq> fst ` set (df_columns returns) \<Longrightarrow>
         df_index components = df_index returns \<Longrightarrow>
         \<exists>c'. flow_attention_loop short_window medium_window returns volumes components tickers
                 = Inr c'
           \<and> df_index c' = df_index returns
           \<and> fst ` set (df_columns c') =
               fst ` set (df_columns components) \<union> (\<Union>t\<in>set tickers. ticker_components volumes t)"
proof (induction tickers arbitrary: components)
  case Nil
  then show ?case by simp
next
  case (Cons t ts)
  have "t \<in> fst ` set (df_columns returns)" using Cons.prems(1) by simp
  from flow_attention_ticker_ok[OF sw mw this vi Cons.prems(2)] obtain c1 where
    c1: "flow_attention_ticker short_window medium_window returns volumes components t = Inr c1"
    "df_index c1 = df_index returns"
    "fst ` set (df_columns c1) = fst ` set (df_columns components) \<union> ticker_components volumes t"
    by blast
  have "set ts \<subseteq> fst ` set (df_columns returns)" using Cons.prems(1) by simp
  from Cons.IH[OF this c1(2)] obtain c' where
    c': "flow_attention_loop short_window medium_window returns volumes c1 ts = Inr c'"
    "df_index c' = df_index returns"
    "fst ` set (df_columns c') =
               fst ` set (df_columns c1) \<union> (\<Union>t\<in>set ts. ticker_components volumes t)"
    by blast
  have "flow_attention_loop short_window medium_window returns volumes components (t # ts) = Inr c'"
    using c1(1) c'(1) by simp
  moreover have "fst ` set (df_columns c') =
     fst ` set (df_columns components) \<union> (\<Union>t\<in>set (t # ts). ticker_components volumes t)"
    unfolding c'(3) c1(3) by auto
  ultimately show ?case using c'(2) by blast
qed

lemma vol_zscore_name:
  "a @ ''_vol_zscore'' \<noteq> b @ ''_ret_zscore''"
  "a @ ''_vol_zscore'' \<noteq> b @ ''_crash_freq''"
  "(a @ ''_vol_zscore'' = b @ ''_vol_zscore'') = (a = b)"
  by (simp_all add: append_eq_append_conv)

lemma vol_zscore_in_ticker_components:
  "a @ ''_vol_zscore'' \<in> ticker_components volumes t \<longleftrightarrow>
     endswith t ''_ret'' \<and> a = str_replace ''_ret'' [] t
     \<and> a @ ''_vol'' \<in> set (map fst (df_columns volumes))"
proof (cases "endswith t ''_ret''")
  case False
  have "ticker_components volumes t = {}"
    unfolding ticker_components_def by (rule if_not_P[OF False])
  then show ?thesis using False by simp
next
  case True
  define n where "n = str_replace ''_ret'' [] t"
  have tc: "ticker_components volumes t =
      {n @ ''_ret_zscore'', n @ ''_crash_freq''}
            \<union> (if n @ ''_vol'' \<in> set (map fst (df_columns volumes))
               then {n @ ''_vol_zscore''} else {})"
    unfolding ticker_components_def if_P[OF True] Let_def n_def[symmetric] by (rule refl)
  show ?thesis
  proof (cases "n @ ''_vol'' \<in> set (map fst (df_columns volumes))")
    case T: True
    have "ticker_components volumes t = {n @ ''_ret_zscore'', n @ ''_crash_freq'', n @ ''_vol_zscore''}"
      unfolding tc if_P[OF T] by blast
    then have "a @ ''_vol_zscore'' \<in> ticker_components volumes t \<longleftrightarrow> a = n"
      using vol_zscore_name[of a n] by (simp only: insert_iff empty_iff) blast
    then show ?thesis using True T n_def by blast
  next
    case F: False
    have "ticker_components volumes t = {n @ ''_ret_zscore'', n @ ''_crash_freq''}"
      unfolding tc if_not_P[OF F] by blast
    then have "a @ ''_vol_zscore'' \<notin> ticker_components volumes t"
      using vol_zscore_name(1,2)[of a n] by (simp only: insert_iff empty_iff) blast
    then show ?thesis using F n_def by blast
  qed
qed

lemma ticker_components_always:
  "endswith t ''_ret'' \<Longrightarrow>
   str_replace ''_ret'' [] t @ ''_ret_zscore'' \<in> ticker_components volumes t
   \<and> str_replace ''_ret'' [] t @ ''_crash_freq'' \<in> ticker_components volumes t"
proof -
  assume True: "endswith t ''_ret''"
  define n where "n = str_replace ''_ret'' [] t"
  have tc: "ticker_components volumes t =
      {n @ ''_ret_zscore'', n @ ''_crash_freq''}
            \<union> (if n @ ''_vol'' \<in> set (map fst (df_columns volumes))
               then {n @ ''_vol_zscore''} else {})"
    unfolding ticker_components_def if_P[OF True] Let_def n_def[symmetric] by (rule refl)
  show ?thesis unfolding n_def[symmetric] tc by blast
qed

lemma flow_attention_log:
  "fst (build_flow_attention_proxy short_window medium_window returns volumes) =
     [(INFO, ''Building flow-attention crowding proxy...'')]
   \<or> (\<exists>n. fst (build_flow_attention_proxy short_window medium_window returns volumes) =
     [(INFO, ''Building flow-attention crowding proxy...''),
      (INFO, ''Flow-attention proxy created with '' @ string_of_nat n @ '' components'')])"
proof (cases "flow_attention_loop short_window medium_window returns volumes
                \<lparr> df_index = df_index returns, df_columns = [] \<rparr> (map fst (df_columns returns))")
  case (Inl e)
  then show ?thesis unfolding build_flow_attention_proxy_def Let_def by simp
next
  case (Inr c)
  have "fst (build_flow_attention_proxy short_window medium_window returns volumes) =
     [(INFO, ''Building flow-attention crowding proxy...''),
      (INFO, ''Flow-attention proxy created with '' @ string_of_nat (length (df_columns c))
             @ '' components'')]"
    unfolding build_flow_attention_proxy_def Let_def Inr by (simp del: string_of_nat.simps)
  then show ?thesis by blast
qed

text \<open>
  Claim C10, amended. With valid windows, uniquely named return columns and a volume
  table on the same index (or any index without duplicate timestamps), the
  flow-attention builder returns a table that holds, for every instrument, the
  return run-up and crash-frequency components, and the volume component exactly when
  the matching volume column exists; it logs two informational records and no
  warning.
\<close>

theorem flow_attention_skips_silently:
  assumes sw: "0 \<le> short_window" and mw: "0 \<le> medium_window"
    and dr: "distinct (map fst (df_columns returns))"
    and dv: "distinct (map fst (df_columns volumes))"
    and vi: "df_index volumes = df_index returns \<or> distinct (df_index volumes)"
  shows "\<exists>components.
           build_flow_attention_proxy short_window medium_window returns volumes =
             ([(INFO, ''Building flow-attention crowding proxy...''),
               (INFO, ''Flow-attention proxy created with ''
                      @ string_of_nat (length (df_columns components)) @ '' components'')],
              Inr components)
         \<and> df_index components = df_index returns
         \<and> (\<forall>ticker\<in>set (map fst (df_columns returns)). endswith ticker ''_ret'' \<longrightarrow>
               str_replace ''_ret'' [] ticker @ ''_ret_zscore'' \<in> set (map fst (df_columns components))
             \<and> str_replace ''_ret'' [] ticker @ ''_crash_freq'' \<in> set (map fst (df_columns components))
             \<and> (str_replace ''_ret'' [] ticker @ ''_vol_zscore'' \<in> set (map fst (df_columns components))
                  \<longleftrightarrow> str_replace ''_ret'' [] ticker @ ''_vol'' \<in> set (map fst (df_columns volumes))))"
proof -
  let ?c0 = "\<lparr> df_index = df_index returns, df_columns = [] \<rparr> :: 'a dataframe"
  have sub: "set (map fst (df_columns returns)) \<subseteq> fst ` set (df_columns returns)" by simp
  have i0: "df_index ?c0 = df_index returns" by simp
  from flow_attention_loop_ok[OF sw mw vi sub i0] obtain c where
    c: "flow_attention_loop short_window medium_window returns volumes ?c0
          (map fst (df_columns returns)) = Inr c"
    and ci: "df_index c = df_index returns"
    and cn: "fst ` set (df_columns c) =
               fst ` set (df_columns ?c0)
               \<union> (\<Union>t\<in>set (map fst (df_columns returns)). ticker_components volumes t)"
    by blast
  have cn': "set (map fst (df_columns c)) =
               (\<Union>t\<in>set (map fst (df_columns returns)). ticker_components volumes t)"
    using cn by simp
  have b: "build_flow_attention_proxy short_window medium_window returns volumes =
             ([(INFO, ''Building flow-attention crowding proxy...''),
               (INFO, ''Flow-attention proxy created with ''
                      @ string_of_nat (length (df_columns c)) @ '' components'')],
              Inr c)"
    unfolding build_flow_attention_proxy_def Let_def c by (simp del: string_of_nat.simps)
  have each: "\<forall>ticker\<in>set (map fst (df_columns returns)). endswith ticker ''_ret'' \<longrightarrow>
               str_replace ''_ret'' [] ticker @ ''_ret_zscore'' \<in> set (map fst (df_columns c))
             \<and> str_replace ''_ret'' [] ticker @ ''_crash_freq'' \<in> set (map fst (df_columns c))
             \<and> (str_replace ''_ret'' [] ticker @ ''_vol_zscore'' \<in> set (map fst (df_columns c))
                  \<longleftrightarrow> str_replace ''_ret'' [] ticker @ ''_vol'' \<in> set (map fst (df_columns volumes)))"
  proof (intro ballI impI)
    fix ticker assume t: "ticker \<in> set (map fst (df_columns returns))" and e: "endswith ticker ''_ret''"
    define n where "n = str_replace ''_ret'' [] ticker"
    from ticker_components_always[OF e, of volumes]
    have a: "n @ ''_ret_zscore'' \<in> ticker_components volumes ticker"
      "n @ ''_crash_freq'' \<in> ticker_components volumes ticker" by (simp_all only: n_def)
    have a1: "n @ ''_ret_zscore'' \<in> set (map fst (df_columns c))"
      unfolding cn' using a(1) t by blast
    have a2: "n @ ''_crash_freq'' \<in> set (map fst (df_columns c))"
      unfolding cn' using a(2) t by blast
    have a3: "n @ ''_vol_zscore'' \<in> set (map fst (df_columns c))
                  \<longleftrightarrow> n @ ''_vol'' \<in> set (map fst (df_columns volumes))"
    proof
      assume "n @ ''_vol_zscore'' \<in> set (map fst (df_columns c))"
      then obtain t' where "n @ ''_vol_zscore'' \<in> ticker_components volumes t'"
        unfolding cn' by blast
      then show "n @ ''_vol'' \<in> set (map fst (df_columns volumes))"
        unfolding vol_zscore_in_ticker_components by blast
    next
      assume "n @ ''_vol'' \<in> set (map fst (df_columns volumes))"
      then have "n @ ''_vol_zscore'' \<in> ticker_components volumes ticker"
        unfolding vol_zscore_in_ticker_components using e n_def by blast
      then show "n @ ''_vol_zscore'' \<in> set (map fst (df_columns c))"
        unfolding cn' using t by blast
    qed
    show "str_replace ''_ret'' [] ticker @ ''_ret_zscore'' \<in> set (map fst (df_columns c))
             \<and> str_replace ''_ret'' [] ticker @ ''_crash_freq'' \<in> set (map fst (df_columns c))
             \<and> (str_replace ''_ret'' [] ticker @ ''_vol_zscore'' \<in> set (map fst (df_columns c))
                  \<longleftrightarrow> str_replace ''_ret'' [] ticker @ ''_vol'' \<in> set (map fst (df_columns volumes)))"
      unfolding n_def[symmetric] using a1 a2 a3 by blast
  qed
  show ?thesis using b ci each by blast
qed

theorem flow_attention_skips_silently_witness:
  "\<exists>log components.
     build_flow_attention_proxy 63 126
       \<lparr> df_index = [0::nat], df_columns = [(''A_ret'', [Some (1 / 100)])] \<rparr>
       \<lparr> df_index = [0::nat], df_columns = [] \<rparr> = (log, Inr components)
   \<and> ''A_ret_zscore'' \<in> set (map fst (df_columns components))
   \<and> ''A_crash_freq'' \<in> set (map fst (df_columns components))
   \<and> ''A_vol_zscore'' \<notin> set (map fst (df_columns components))"
proof -
  let ?R = "\<lparr> df_index = [0::nat], df_columns = [(''A_ret'', [Some (1 / 100)])] \<rparr>"
  let ?V = "\<lparr> df_index = [0::nat], df_columns = [] \<rparr>"
  have e: "endswith ''A_ret'' ''_ret''"
    unfolding endswith_def suffix_def by (rule exI[of _ "''A''"]) simp
  have n: "str_replace ''_ret'' [] ''A_ret'' = ''A''" by (simp add: str_replace_def)
  have h1: "(0::int) \<le> 63" and h2: "(0::int) \<le> 126" by simp_all
  have h3: "distinct (map fst (df_columns ?R))" and h4: "distinct (map fst (df_columns ?V))"
    by simp_all
  have h5: "df_index ?V = df_index ?R \<or> distinct (df_index ?V)" by simp
  from flow_attention_skips_silently[OF h1 h2 h3 h4 h5] obtain components where
    b: "build_flow_attention_proxy 63 126 ?R ?V =
             ([(INFO, ''Building flow-attention crowding proxy...''),
               (INFO, ''Flow-attention proxy created with ''
                      @ string_of_nat (length (df_columns components)) @ '' components'')],
              Inr components)"
    and each: "\<forall>ticker\<in>set (map fst (df_columns ?R)). endswith ticker ''_ret'' \<longrightarrow>
               str_replace ''_ret'' [] ticker @ ''_ret_zscore'' \<in> set (map fst (df_columns components))
             \<and> str_replace ''_ret'' [] ticker @ ''_crash_freq'' \<in> set (map fst (df_columns components))
             \<and> (str_replace ''_ret'' [] ticker @ ''_vol_zscore'' \<in> set (map fst (df_columns components))
                  \<longleftrightarrow> str_replace ''_ret'' [] ticker @ ''_vol'' \<in> set (map fst (df_columns ?V)))"
    by blast
  have "''A_ret'' \<in> set (map fst (df_columns ?R))" by simp
  from bspec[OF each this] e
  have "''A'' @ ''_ret_zscore'' \<in> set (map fst (df_columns components))
      \<and> ''A'' @ ''_crash_freq'' \<in> set (map fst (df_columns components))
      \<and> (''A'' @ ''_vol_zscore'' \<in> set (map fst (df_columns components))
                  \<longleftrightarrow> ''A'' @ ''_vol'' \<in> set (map fst (df_columns ?V)))"
    unfolding n by blast
  then have "''A_ret_zscore'' \<in> set (map fst (df_columns components))
   \<and> ''A_crash_freq'' \<in> set (map fst (df_columns components))
   \<and> ''A_vol_zscore'' \<notin> set (map fst (df_columns components))"
    by simp
  then show ?thesis using b by (intro exI conjI) (assumption, simp_all)
qed

text \<open>
  Claim C10 as stated fails: for one instrument without a volume column the builder
  logs no warning.
\<close>

theorem flow_attention_no_warning_counterexample:
  "endswith ''A_ret'' ''_ret''
   \<and> str_replace ''_ret'' [] ''A_ret'' @ ''_vol'' \<notin> set (map fst (df_columns
         \<lparr> df_index = [0::nat], df_columns = [] \<rparr>))
   \<and> WARNING \<notin> set (map fst (fst (build_flow_attention_proxy 63 126
         \<lparr> df_index = [0::nat], df_columns = [(''A_ret'', [Some (1 / 100)])] \<rparr>
         \<lparr> df_index = [0::nat], df_columns = [] \<rparr>)))"
proof -
  let ?R = "\<lparr> df_index = [0::nat], df_columns = [(''A_ret'', [Some (1 / 100)])] \<rparr>"
  let ?V = "\<lparr> df_index = [0::nat], df_columns = [] \<rparr>"
  have e: "endswith ''A_ret'' ''_ret''"
    unfolding endswith_def suffix_def by (rule exI[of _ "''A''"]) simp
  have v: "str_replace ''_ret'' [] ''A_ret'' @ ''_vol'' \<notin> set (map fst (df_columns ?V))"
    by simp
  from flow_attention_log[of 63 126 ?R ?V]
  have "map fst (fst (build_flow_attention_proxy 63 126 ?R ?V)) = [INFO]
      \<or> map fst (fst (build_flow_attention_proxy 63 126 ?R ?V)) = [INFO, INFO]"
  proof
    assume "fst (build_flow_attention_proxy 63 126 ?R ?V) =
              [(INFO, ''Building flow-attention crowding proxy...'')]"
    then show ?thesis by (simp only: list.map fst_conv) simp
  next
    assume "\<exists>n. fst (build_flow_attention_proxy 63 126 ?R ?V) =
     [(INFO, ''Building flow-attention crowding proxy...''),
      (INFO, ''Flow-attention proxy created with '' @ string_of_nat n @ '' components'')]"
    then obtain k where "fst (build_flow_attention_proxy 63 126 ?R ?V) =
     [(INFO, ''Building flow-attention crowding proxy...''),
      (INFO, ''Flow-attention proxy created with '' @ string_of_nat k @ '' components'')]"
      by blast
    then show ?thesis by (simp only: list.map fst_conv) simp
  qed
  then have w: "WARNING \<notin> set (map fst (fst (build_flow_attention_proxy 63 126 ?R ?V)))"
    by auto
  show ?thesis using e v w by (intro conjI)
qed

end
